theory Spec2Isabelle
  imports Main
begin

section \<open>Errors and matrices\<close>

text \<open>
  The embedding follows \<^verbatim>\<open>src/groups/SymmetricGroups.py\<close>. Every \<^verbatim>\<open>assert\<close> and
  \<^verbatim>\<open>raise\<close> of the source is a branch returning \<open>Inl\<close>; the string of an
  \<open>AssertionError\<close> is the head of the message the source gives.
\<close>

datatype error =
    AssertionError string
  | NotImplementedError string
  | ValueError string
  | TypeError string

definition bind :: "error + 'a \<Rightarrow> ('a \<Rightarrow> error + 'b) \<Rightarrow> error + 'b" where
  "bind m f = (case m of Inl e \<Rightarrow> Inl e | Inr x \<Rightarrow> f x)"

text \<open>
  A two-dimensional integer array is the list of its rows. Entries are Python/NumPy integers
  of an integer dtype. The matrices of the claims have entries \<open>-1\<close>, \<open>0\<close>, \<open>1\<close> and one
  nonzero entry per row, so products and row sums stay in that range; the trace is summed
  without wrap-around, as \<^verbatim>\<open>sum(h.diagonal())\<close> does under the promotion rules of
  NumPy 1, for which the repository was written (a Python \<open>int\<close> plus an \<open>int8\<close> scalar is
  a 64-bit integer there).
\<close>

type_synonym matrix = "int list list"

definition ncols :: "matrix \<Rightarrow> nat" where
  "ncols A = (case A of [] \<Rightarrow> 0 | r # _ \<Rightarrow> length r)"

definition eye :: "nat \<Rightarrow> matrix" where
  "eye n = map (\<lambda>i. map (\<lambda>j. if i = j then 1 else 0) [0..<n]) [0..<n]"

definition diagonal :: "matrix \<Rightarrow> int list" where
  "diagonal h = map (\<lambda>i. h ! i ! i) [0..<min (length h) (ncols h)]"

definition trace :: "matrix \<Rightarrow> int" where
  "trace h = sum_list (diagonal h)"

text \<open>\<^verbatim>\<open>A @ B\<close>: a \<open>ValueError\<close> when the inner dimensions differ.\<close>

definition matmul :: "matrix \<Rightarrow> matrix \<Rightarrow> error + matrix" where
  "matmul A B =
     (if ncols A \<noteq> length B then Inl (ValueError ''matmul: dimension mismatch'')
      else Inr (map (\<lambda>r. map (\<lambda>j. \<Sum>k\<leftarrow>[0..<length B]. r ! k * B ! k ! j) [0..<ncols B]) A))"

text \<open>
  \<^verbatim>\<open>np.isclose(a, b)\<close> with the default tolerances is
  \<open>\<bar>a - b\<bar> \<le> atol + rtol * \<bar>b\<bar>\<close>, \<open>atol = 1e-8\<close>, \<open>rtol = 1e-5\<close>. On integers this is the
  comparison below, both sides multiplied by \<open>10^8\<close>.
\<close>

definition isclose :: "int \<Rightarrow> int \<Rightarrow> bool" where
  "isclose a b \<longleftrightarrow> 100000000 * \<bar>a - b\<bar> \<le> 1 + 1000 * \<bar>b\<bar>"

text \<open>
  \<^verbatim>\<open>np.allclose(A, B)\<close> on two-dimensional arrays: the shapes are broadcast (a dimension
  of size one stretches), incompatible shapes raise, and every pair of entries must be close.
\<close>

definition bcast :: "matrix \<Rightarrow> nat \<Rightarrow> nat \<Rightarrow> int" where
  "bcast A i j = A ! (if length A = 1 then 0 else i) ! (if ncols A = 1 then 0 else j)"

definition compatible :: "nat \<Rightarrow> nat \<Rightarrow> bool" where
  "compatible m n \<longleftrightarrow> m = n \<or> m = 1 \<or> n = 1"

definition bdim :: "nat \<Rightarrow> nat \<Rightarrow> nat" where
  "bdim m n = (if m = 1 then n else m)"

definition allclose :: "matrix \<Rightarrow> matrix \<Rightarrow> error + bool" where
  "allclose A B =
     (if compatible (length A) (length B) \<and> compatible (ncols A) (ncols B)
      then Inr (list_all (\<lambda>i. list_all (\<lambda>j. isclose (bcast A i j) (bcast B i j))
                  [0..<bdim (ncols A) (ncols B)]) [0..<bdim (length A) (length B)])
      else Inl (ValueError ''operands could not be broadcast together''))"

text \<open>
  \<^verbatim>\<open>np.allclose(norm(h, axis=0), 1)\<close>: the norm of column \<open>j\<close> is the square root of
  the integer \<open>S = \<Sum>i. h[i][j]^2\<close>, and \<open>\<bar>sqrt S - 1\<bar> \<le> 1e-8 + 1e-5\<close> holds for \<open>S = 1\<close> only
  (\<open>S = 0\<close> misses by \<open>1\<close>, \<open>S \<ge> 2\<close> by more than \<open>0.41\<close>).
\<close>

definition col_norm_sq :: "matrix \<Rightarrow> nat \<Rightarrow> int" where
  "col_norm_sq h j = (\<Sum>r\<leftarrow>h. (r ! j) * (r ! j))"

definition unit_columns :: "matrix \<Rightarrow> bool" where
  "unit_columns h \<longleftrightarrow> list_all (\<lambda>j. col_norm_sq h j = 1) [0..<ncols h]"

section \<open>Sparse storage and \<open>Sym.oneline2matrix\<close>\<close>

text \<open>
  A \<^verbatim>\<open>scipy.sparse.coo_matrix\<close>: the shape and the triplets (row, column, value). The entry
  at \<open>(i, j)\<close> is the sum of the values of the triplets at \<open>(i, j)\<close>.
\<close>

record coo_matrix =
  shape :: "nat \<times> nat"
  row :: "nat list"
  col :: "nat list"
  data :: "int list"

definition coo_entry :: "coo_matrix \<Rightarrow> nat \<Rightarrow> nat \<Rightarrow> int" where
  "coo_entry M i j =
     (\<Sum>k\<leftarrow>[0..<length (data M)]. if row M ! k = i \<and> col M ! k = j then data M ! k else 0)"

definition todense :: "coo_matrix \<Rightarrow> matrix" where
  "todense M = map (\<lambda>i. map (\<lambda>j. coo_entry M i j) [0..<snd (shape M)]) [0..<fst (shape M)]"

datatype array = Dense matrix | Sparse coo_matrix

fun entries :: "array \<Rightarrow> matrix" where
  "entries (Dense h) = h"
| "entries (Sparse M) = todense M"

fun issparse :: "array \<Rightarrow> bool" where
  "issparse (Dense h) = False"
| "issparse (Sparse M) = True"

text \<open>
  The operations of NumPy and SciPy on the two storages, as the releases of NumPy 1 and
  SciPy 1 have them.

  \<^verbatim>\<open>a @ b\<close>: the product of two sparse matrices is a sparse matrix (its triplets are the
  nonzero entries, row by row); a product with a dense operand is dense.
\<close>

definition tosparse :: "matrix \<Rightarrow> coo_matrix" where
  "tosparse A =
     (let nz = filter (\<lambda>(i, j). A ! i ! j \<noteq> 0) (List.product [0..<length A] [0..<ncols A])
      in \<lparr>shape = (length A, ncols A), row = map fst nz, col = map snd nz,
          data = map (\<lambda>(i, j). A ! i ! j) nz\<rparr>)"

definition matmul_array :: "array \<Rightarrow> array \<Rightarrow> error + array" where
  "matmul_array a b =
     bind (matmul (entries a) (entries b)) (\<lambda>c.
       Inr (if issparse a \<and> issparse b then Sparse (tosparse c) else Dense c))"

text \<open>
  \<^verbatim>\<open>np.allclose(a, B)\<close> and \<^verbatim>\<open>np.trace(h)\<close> begin with \<^verbatim>\<open>np.asanyarray\<close>, which turns a
  sparse matrix into a zero-dimensional array of dtype \<open>object\<close> holding the matrix.
  \<^verbatim>\<open>np.isfinite\<close> then refuses the dtype with a \<open>TypeError\<close>, and \<^verbatim>\<open>trace\<close> refuses the
  dimension with a \<open>ValueError\<close>. Neither returns a value on a sparse operand.
\<close>

definition np_allclose :: "array \<Rightarrow> matrix \<Rightarrow> error + bool" where
  "np_allclose a B =
     (case a of
        Sparse M \<Rightarrow> Inl (TypeError ''ufunc isfinite not supported for the input types'')
      | Dense A \<Rightarrow> allclose A B)"

definition np_trace :: "array \<Rightarrow> error + int" where
  "np_trace h =
     (case h of
        Sparse M \<Rightarrow> Inl (ValueError ''diag requires an array of at least two dimensions'')
      | Dense A \<Rightarrow> Inr (trace A))"

text \<open>A loop that appends the result of a call that may raise: the first error ends it.\<close>

fun traverse :: "('a \<Rightarrow> error + 'b) \<Rightarrow> 'a list \<Rightarrow> error + 'b list" where
  "traverse f [] = Inr []"
| "traverse f (x # xs) = bind (f x) (\<lambda>y. bind (traverse f xs) (\<lambda>ys. Inr (y # ys)))"

text \<open>\<^verbatim>\<open>.astype(np.int8)\<close>: the value modulo \<open>2^8\<close>, read as a signed byte.\<close>

definition int8 :: "int \<Rightarrow> int" where
  "int8 v = (v + 128) mod 256 - 128"

text \<open>
  \<^verbatim>\<open>coo_matrix((data, (rows, cols)), shape=(d, d))\<close> refuses a column index outside the
  shape with a \<open>ValueError\<close>; the rows are \<open>range(d)\<close> and the columns \<open>np.abs(notation)\<close>.
  \<^verbatim>\<open>not reflexions\<close> holds for \<open>None\<close> and for the empty list.
\<close>

definition oneline2matrix :: "int list \<Rightarrow> int list option \<Rightarrow> error + array" where
  "oneline2matrix oneline_notation reflexions =
     (let d = length oneline_notation in
      if d \<noteq> length (remdups oneline_notation)
      then Inl (AssertionError ''np.unique(oneline_notation, return_counts=True)'')
      else
        let reflexions' = (case reflexions of None \<Rightarrow> replicate d 1
                           | Some r \<Rightarrow> if r = [] then replicate d 1 else r) in
        if length reflexions' \<noteq> d then Inl (AssertionError ''len(reflexions) != d'')
        else
          let rows = [0..<d]; cols = map (\<lambda>v. nat \<bar>v\<bar>) oneline_notation in
          if \<exists>c \<in> set cols. c \<ge> d then Inl (ValueError ''column index exceeds matrix dimensions'')
          else Inr (Sparse \<lparr>shape = (d, d), row = rows, col = cols,
                            data = map int8 reflexions'\<rparr>))"

section \<open>\<open>Sym\<close>: the validated generator set\<close>

record Sym =
  d :: nat
  is_orthogonal :: bool
  is_permutation :: bool
  is_sparse :: bool
  discrete_generators :: "array list"
  inv_dims :: "bool list"
  n_inv_dims :: nat

text \<open>\<^verbatim>\<open>np.all(rows, axis=0)\<close> on a two-dimensional boolean array.\<close>

definition all_axis0 :: "bool list list \<Rightarrow> bool list" where
  "all_axis0 rows =
     map (\<lambda>i. list_all (\<lambda>r. r ! i) rows) [0..<(case rows of [] \<Rightarrow> 0 | r # _ \<Rightarrow> length r)]"

text \<open>Lines 50-55: the diagonals of the generator list, repeated four times.\<close>

definition tiled_inv_dims :: "array list \<Rightarrow> bool list" where
  "tiled_inv_dims gens =
     (let h_diags = concat (replicate 4 (map (\<lambda>h. diagonal (entries h)) gens));
          inv_h_diags = map (map (\<lambda>v. v = 1)) h_diags
      in all_axis0 inv_h_diags)"

definition has_negative :: "matrix \<Rightarrow> bool" where
  "has_negative h \<longleftrightarrow> (\<exists>r \<in> set h. \<exists>v \<in> set r. v < 0)"

text \<open>
  \<open>Sym.__init__\<close>. The base class initialiser \<^verbatim>\<open>super().__init__()\<close> belongs to the
  \<^verbatim>\<open>emlp\<close> package and is not part of the embedding.
\<close>

definition Sym_init :: "array list \<Rightarrow> error + Sym" where
  "Sym_init generators =
     (if \<not> length generators > 0 then Inl (AssertionError ''Zero generator provided'')
      else if \<exists>h \<in> set generators. \<not> unit_columns (entries h)
      then Inl (AssertionError ''Generator is not orthogonal'')
      else
        let invd = tiled_inv_dims generators in
        Inr \<lparr>d = length (entries (generators ! 0)),
             is_orthogonal = True,
             is_permutation = (\<not> (\<exists>h \<in> set generators. has_negative (entries h))),
             is_sparse = (\<exists>h \<in> set generators. issparse h),
             discrete_generators = generators,
             inv_dims = invd,
             n_inv_dims = length (filter (\<lambda>b. b) invd)\<rparr>)"

text \<open>\<open>generators_characters\<close>: \<^verbatim>\<open>np.trace(h)\<close> of every generator in turn.\<close>

definition generators_characters :: "Sym \<Rightarrow> error + int list" where
  "generators_characters G = traverse np_trace (discrete_generators G)"

section \<open>\<open>C2\<close>: the group of one involution\<close>

text \<open>
  \<open>C2.__init__\<close>. Both \<open>is_eye\<close> and \<open>is_cyclic\<close> are computed before either is asserted,
  so a failing product \<^verbatim>\<open>h @ h\<close> comes first. The sparse and the dense branch compute the
  same two numbers, the sum of the diagonal of \<open>h\<close> and of \<open>h @ h\<close>.
\<close>

definition C2_init :: "array \<Rightarrow> error + Sym" where
  "C2_init generator =
     bind (Sym_init [generator]) (\<lambda>G.
       if length (discrete_generators G) \<noteq> 1
       then Inl (AssertionError ''C2 must contain only one generator'')
       else
         let h = entries (discrete_generators G ! 0);
             is_eye = isclose (trace h) (int (d G)) in
         bind (matmul h h) (\<lambda>hh.
           let is_cyclic = isclose (trace hh) (int (d G)) in
           if is_eye then Inl (AssertionError ''Generator must not be the identity'')
           else if \<not> is_cyclic then Inl (AssertionError ''Generator is not cyclic h @ h != I'')
           else Inr G))"

definition C2_discrete_actions :: "Sym \<Rightarrow> matrix list" where
  "C2_discrete_actions G = [eye (d G), entries (discrete_generators G ! 0)]"

text \<open>
  \<open>C2.canonical_group\<close>. \<open>d\<close> and \<open>inv_dims\<close> are Python integers; \<open>%\<close> and \<open>//\<close> are
  \<open>mod\<close> and \<open>div\<close> on \<open>int\<close> (both round towards minus infinity). The slices
  \<^verbatim>\<open>p[:n]\<close> and \<^verbatim>\<open>p[-n:]\<close> are taken for \<open>0 < n\<close>, and \<open>n \<le> d\<close> holds there because
  \<open>inv_dims < d - 1\<close>.
\<close>

definition flip_ends :: "nat \<Rightarrow> int list \<Rightarrow> int list" where
  "flip_ends n p =
     (let p_copy = p;
          p1 = rev (drop (length p_copy - n) p_copy) @ drop n p;
          p2 = take (length p1 - n) p1 @ rev (take n p_copy)
      in p2)"

definition C2_canonical_group :: "int \<Rightarrow> int \<Rightarrow> error + Sym" where
  "C2_canonical_group dim inv_dims0 =
     (if \<not> dim > 0 then Inl (AssertionError ''Vector space dimension must be greater than 0'')
      else if \<not> inv_dims0 < dim - 1
      then Inl (AssertionError ''At least a single dimension must be symmetric'')
      else
        let p = map int (rev [0..<nat dim]);
            r = replicate (nat dim) (1::int);
            (r, idn, inv_dims1) =
              (if dim mod 2 > 0
               then (if inv_dims0 mod 2 = 0
                     then (r[nat (dim div 2) := r ! nat (dim div 2) * (-1)], inv_dims0, inv_dims0)
                     else (r, inv_dims0 - 1, inv_dims0))
               else (if inv_dims0 mod 2 > 0
                     then (r, inv_dims0 + 1, inv_dims0 + 1)
                     else (r, inv_dims0, inv_dims0)));
            n = idn div 2;
            p = (if n > 0 then flip_ends (nat n) p else p)
        in bind (oneline2matrix p (Some r)) (\<lambda>H.
             bind (C2_init H) (\<lambda>G.
               if int (n_inv_dims G) \<noteq> inv_dims1 then Inl (AssertionError ''G.n_inv_dims'')
               else Inr G)))"

section \<open>\<open>C2.get_equivariant_basis\<close>\<close>

text \<open>\<^verbatim>\<open>w = np.abs(P) @ np.arange(n)\<close>.\<close>

definition abs_dot_arange :: "matrix \<Rightarrow> nat list" where
  "abs_dot_arange P = map (\<lambda>r. nat (\<Sum>j\<leftarrow>[0..<length P]. \<bar>r ! j\<bar> * int j)) P"

text \<open>
  \<^verbatim>\<open>pendind_dims.pop()\<close> removes an arbitrary element of the set. The set is the list of
  its elements and the choice is a parameter \<open>pick\<close>: the position, in that list, of the element
  popped (reduced modulo the length, so every \<open>pick\<close> is a pop order and every pop order is
  some \<open>pick\<close>).
\<close>

definition set_pop :: "(nat list \<Rightarrow> nat) \<Rightarrow> nat list \<Rightarrow> nat" where
  "set_pop pick S = S ! (pick S mod length S)"

text \<open>The inner loop \<^verbatim>\<open>while w[a] in pendind_dims\<close>, returning the orbit and the set.\<close>

function follow :: "nat list \<Rightarrow> nat \<Rightarrow> nat list \<Rightarrow> nat list \<Rightarrow> nat list \<times> nat list" where
  "follow w a cyc pend =
     (if w ! a \<in> set pend
      then follow w (w ! a) (cyc @ [w ! a]) (removeAll (w ! a) pend)
      else (cyc, pend))"
  by pat_completeness auto
termination
  by (relation "measure (\<lambda>(w, a, cyc, pend). length pend)") (auto simp: length_removeAll_less)

declare follow.simps [simp del]

lemma follow_length: "length (snd (follow w a cyc pend)) \<le> length pend"
proof (induction w a cyc pend rule: follow.induct)
  case (1 w a cyc pend)
  show ?case
  proof (cases "w ! a \<in> set pend")
    case True
    have "length (removeAll (w ! a) pend) \<le> length pend" by simp
    then have "length (snd (follow w (w ! a) (cyc @ [w ! a]) (removeAll (w ! a) pend)))
        \<le> length pend"
      using 1(1)[OF True] by (rule order_trans[rotated])
    with True show ?thesis by (subst follow.simps) simp
  next
    case False
    then show ?thesis by (subst follow.simps) simp
  qed
qed

lemma set_pop_mem: "S \<noteq> [] \<Longrightarrow> set_pop pick S \<in> set S"
  by (simp add: set_pop_def)

text \<open>The outer loop \<^verbatim>\<open>while pendind_dims\<close>.\<close>

function orbit_loop ::
  "(nat list \<Rightarrow> nat) \<Rightarrow> nat list \<Rightarrow> nat list \<Rightarrow> nat list list \<Rightarrow> nat list list" where
  "orbit_loop pick w pend cycles =
     (if pend = [] then cycles
      else (let a = set_pop pick pend;
                r = follow w a [a] (removeAll a pend)
            in orbit_loop pick w (snd r) (cycles @ [fst r])))"
  by pat_completeness auto
termination
proof (relation "measure (\<lambda>(pick, w, pend, cycles). length pend)", goal_cases)
  case 1
  show ?case by simp
next
  case (2 pick w pend cycles a r)
  have "length (snd r) \<le> length (removeAll a pend)"
    using 2 by (simp add: follow_length)
  moreover have "length (removeAll a pend) < length pend"
    using 2 by (simp add: length_removeAll_less set_pop_mem)
  ultimately show ?case by simp
qed

declare orbit_loop.simps [simp del]

definition cycles_of :: "(nat list \<Rightarrow> nat) \<Rightarrow> matrix \<Rightarrow> nat list list" where
  "cycles_of pick P = orbit_loop pick (abs_dot_arange P) [0..<length P] []"

text \<open>
  \<^verbatim>\<open>Q[cyc, -1] = vals\<close>: the last entry of row \<open>cyc[j]\<close> becomes \<open>vals[j]\<close>; the two lists
  have the same length, and the indices are rows of \<open>Q\<close>, where the loop builds them.
\<close>

fun assign_last :: "matrix \<Rightarrow> nat list \<Rightarrow> int list \<Rightarrow> matrix" where
  "assign_last Q (a # cyc) (v # vals) =
     assign_last (Q[a := (Q ! a)[length (Q ! a) - 1 := v]]) cyc vals"
| "assign_last Q _ _ = Q"

text \<open>
  The loop over the orbits: \<open>p\<close> holds the row sums of the rows of the orbit, and
  \<^verbatim>\<open>p[i:-1]\<close> is \<open>drop i (butlast p)\<close>.
\<close>

fun basis_loop :: "matrix \<Rightarrow> nat list list \<Rightarrow> matrix \<Rightarrow> matrix" where
  "basis_loop P [] Q = Q"
| "basis_loop P (cyc # cycles) Q =
     (let p = map (\<lambda>a. sum_list (P ! a)) cyc in
      if prod_list p = 1
      then basis_loop P cycles
             (assign_last (map (\<lambda>r. r @ [0]) Q) cyc
                (map (\<lambda>i. prod_list (drop i (butlast p))) [0..<length p]))
      else basis_loop P cycles Q)"

definition get_equivariant_basis :: "(nat list \<Rightarrow> nat) \<Rightarrow> matrix \<Rightarrow> matrix" where
  "get_equivariant_basis pick P =
     (let n = length P;
          cycles = cycles_of pick P;
          Q = replicate n []
      in basis_loop P cycles Q)"

section \<open>\<open>Klein4\<close>: the group of two commuting involutions\<close>

text \<open>
  \<open>Klein4.__init__\<close>: four assertions, each evaluated in turn, on the generators as
  \<open>Sym.__init__\<close> stored them. There is no branch on \<open>is_sparse\<close> here, unlike in
  \<open>C2.__init__\<close>: the products go to \<^verbatim>\<open>np.allclose\<close> in the storage they have.
\<close>

definition Klein4_init :: "array list \<Rightarrow> error + Sym" where
  "Klein4_init generators =
     (if length generators \<noteq> 2
      then Inl (AssertionError ''Provide only the non-trivial generators (2)'')
      else bind (Sym_init generators) (\<lambda>G.
        let a = discrete_generators G ! 0;
            b = discrete_generators G ! 1;
            I = eye (d G) in
        bind (matmul_array a a) (\<lambda>aa. bind (np_allclose aa I) (\<lambda>c1.
          if \<not> c1 then Inl (AssertionError ''Generator is not cyclic'') else
        bind (matmul_array b b) (\<lambda>bb. bind (np_allclose bb I) (\<lambda>c2.
          if \<not> c2 then Inl (AssertionError ''Generator is not cyclic'') else
        bind (matmul_array a b) (\<lambda>ab. bind (matmul_array ab ab) (\<lambda>abab. bind (np_allclose abab I) (\<lambda>c3.
          if \<not> c3 then Inl (AssertionError ''Generators composition a.b is not cyclic'') else
        bind (np_allclose ab I) (\<lambda>c4.
          if c4 then Inl (AssertionError ''Third action must be non-trivial: a.b != e'')
          else Inr G))))))))))"

text \<open>\<open>discrete_actions\<close>: the four actions, each given by its entries.\<close>

definition Klein4_discrete_actions :: "Sym \<Rightarrow> error + matrix list" where
  "Klein4_discrete_actions G =
     (let a = entries (discrete_generators G ! 0);
          b = entries (discrete_generators G ! 1)
      in bind (matmul a b) (\<lambda>ab. Inr [eye (d G), a, b, ab]))"

text \<open>\<open>is_canonical\<close>: \<^verbatim>\<open>np.allclose(characters, 0.0)\<close> on the list of the traces.\<close>

definition is_canonical :: "Sym \<Rightarrow> error + bool" where
  "is_canonical G =
     bind (generators_characters G) (\<lambda>characters. Inr (list_all (\<lambda>c. isclose c 0) characters))"

text \<open>
  \<^verbatim>\<open>np.array_split(ary, k)\<close>: the first \<open>len mod k\<close> sections have \<open>len div k + 1\<close>
  elements, the others \<open>len div k\<close>.
\<close>

fun split_sizes :: "nat list \<Rightarrow> 'a list \<Rightarrow> 'a list list" where
  "split_sizes [] xs = []"
| "split_sizes (s # ss) xs = take s xs # split_sizes ss (drop s xs)"

definition array_split :: "'a list \<Rightarrow> nat \<Rightarrow> 'a list list" where
  "array_split ary k =
     (let each = length ary div k; extras = length ary mod k
      in split_sizes (replicate extras (each + 1) @ replicate (k - extras) each) ary)"

text \<open>
  \<open>Klein4.canonical_group\<close>. In the branch \<open>mod > 0\<close> the statements before the
  \<^verbatim>\<open>raise\<close> (an index array, a concatenation, a slice assignment) cannot fail. The
  signs \<open>b_r\<close> are the floats \<open>1.0\<close>, cast to \<open>int8\<close> by \<open>oneline2matrix\<close>.
\<close>

definition Klein4_canonical_group :: "int \<Rightarrow> error + Sym" where
  "Klein4_canonical_group dim =
     (if \<not> dim > 0 then Inl (AssertionError ''Vector space dimension must be greater than 0'')
      else
        let a = map int (rev [0..<nat dim]);
            md = dim mod 4;
            idx = array_split (map int [0..<nat (dim - md)]) 4;
            b_r = replicate (nat dim) (1::int)
        in if md > 0
           then Inl (NotImplementedError
                  ''TODO: Deal with case where impossible to get all representations irreducible'')
           else
             let b = idx ! 2 @ idx ! 3 @ idx ! 0 @ idx ! 1 in
             bind (oneline2matrix a None) (\<lambda>rep_a.
               bind (oneline2matrix b (Some b_r)) (\<lambda>rep_b.
                 Klein4_init [rep_a, rep_b])))"

section \<open>Generalized permutation matrices\<close>

text \<open>
  The data model of the specification: a square matrix with entries \<open>-1\<close>, \<open>0\<close>, \<open>1\<close>
  and exactly one nonzero entry in every row and in every column.
\<close>

definition valid_gpm :: "matrix \<Rightarrow> bool" where
  "valid_gpm P \<longleftrightarrow>
     list_all (\<lambda>r. length r = length P \<and> list_all (\<lambda>v. v = -1 \<or> v = 0 \<or> v = 1) r
                  \<and> length (filter (\<lambda>v. v \<noteq> 0) r) = 1) P
     \<and> list_all (\<lambda>j. length (filter (\<lambda>r. r ! j \<noteq> 0) P) = 1) [0..<length P]"

section \<open>Notions of the specification\<close>

text \<open>The column of the nonzero entry of row \<open>i\<close> (the first nonzero one), and that entry.\<close>

definition nonzero_col :: "matrix \<Rightarrow> nat \<Rightarrow> nat" where
  "nonzero_col P i = length (takeWhile (\<lambda>v. v = 0) (P ! i))"

definition row_sign :: "matrix \<Rightarrow> nat \<Rightarrow> int" where
  "row_sign P i = P ! i ! nonzero_col P i"

text \<open>
  The orbits of the underlying permutation, row \<open>i\<close> going to the column of its nonzero entry,
  and the product of the row signs over an orbit.
\<close>

definition orbit_of :: "(nat \<Rightarrow> nat) \<Rightarrow> nat \<Rightarrow> nat set" where
  "orbit_of f i = {(f ^^ k) i | k. True}"

definition orbits :: "matrix \<Rightarrow> nat set set" where
  "orbits P = orbit_of (nonzero_col P) ` {..<length P}"

definition sign_product :: "matrix \<Rightarrow> nat set \<Rightarrow> int" where
  "sign_product P X = (\<Prod>a\<in>X. row_sign P a)"

text \<open>The orbits found by the loop whose row signs have product \<open>+1\<close>, in discovery order.\<close>

definition good_cycles :: "(nat list \<Rightarrow> nat) \<Rightarrow> matrix \<Rightarrow> nat list list" where
  "good_cycles pick P =
     filter (\<lambda>cyc. (\<Prod>i<length cyc. row_sign P (cyc ! i)) = 1) (cycles_of pick P)"

text \<open>A square matrix of size \<open>n\<close>; a dimension fixed by every generator; the signs used.\<close>

definition square :: "nat \<Rightarrow> matrix \<Rightarrow> bool" where
  "square n A \<longleftrightarrow> length A = n \<and> (\<forall>r \<in> set A. length r = n)"

definition invariant_dimension :: "array list \<Rightarrow> nat \<Rightarrow> bool" where
  "invariant_dimension gens i \<longleftrightarrow> (\<forall>h \<in> set gens. entries h ! i ! i = 1)"

definition signs_or_ones :: "nat \<Rightarrow> int list option \<Rightarrow> int list" where
  "signs_or_ones n reflexions =
     (case reflexions of None \<Rightarrow> replicate n 1 | Some r \<Rightarrow> if r = [] then replicate n 1 else r)"

section \<open>Auxiliary notions of the proofs\<close>

text \<open>What the code computes for a row: its sum, and the entry of \<open>w\<close>.\<close>

definition sgn_of :: "matrix \<Rightarrow> nat \<Rightarrow> int" where
  "sgn_of P i = sum_list (P ! i)"

definition perm_of :: "matrix \<Rightarrow> nat \<Rightarrow> nat" where
  "perm_of P i = abs_dot_arange P ! i"

text \<open>A list following \<open>w\<close>, a cycle of \<open>w\<close>, and a list of cycles.\<close>

definition chain :: "nat list \<Rightarrow> nat list \<Rightarrow> bool" where
  "chain w cyc \<longleftrightarrow> (\<forall>i. Suc i < length cyc \<longrightarrow> cyc ! Suc i = w ! (cyc ! i))"

definition is_cycle :: "nat list \<Rightarrow> nat list \<Rightarrow> bool" where
  "is_cycle w cyc \<longleftrightarrow> cyc \<noteq> [] \<and> distinct cyc \<and> chain w cyc \<and> w ! last cyc = hd cyc"

definition cycles_ok :: "nat list \<Rightarrow> nat list list \<Rightarrow> bool" where
  "cycles_ok w cycles \<longleftrightarrow> (\<forall>cyc \<in> set cycles. is_cycle w cyc)"

text \<open>One column of the basis: the zero vector with the values of an orbit written in.\<close>

fun upd_col :: "int list \<Rightarrow> nat list \<Rightarrow> int list \<Rightarrow> int list" where
  "upd_col c (a # cyc) (v # vals) = upd_col (c[a := v]) cyc vals"
| "upd_col c _ _ = c"

definition app_col :: "matrix \<Rightarrow> int list \<Rightarrow> matrix" where
  "app_col Q c = map (\<lambda>i. Q ! i @ [c ! i]) [0..<length Q]"

definition cyc_vals :: "matrix \<Rightarrow> nat list \<Rightarrow> int list" where
  "cyc_vals P cyc = map (\<lambda>i. prod_list (drop i (butlast (map (sgn_of P) cyc)))) [0..<length cyc]"

definition good :: "matrix \<Rightarrow> nat list \<Rightarrow> bool" where
  "good P cyc \<longleftrightarrow> prod_list (map (sgn_of P) cyc) = 1"

definition column :: "matrix \<Rightarrow> nat list \<Rightarrow> int list" where
  "column P cyc = upd_col (replicate (length P) 0) cyc (cyc_vals P cyc)"

text \<open>The matrix with the entry \<open>s i\<close> at \<open>(i, f i)\<close> and zero elsewhere.\<close>

definition gmat :: "nat \<Rightarrow> (nat \<Rightarrow> nat) \<Rightarrow> (nat \<Rightarrow> int) \<Rightarrow> matrix" where
  "gmat n f s = map (\<lambda>i. map (\<lambda>j. if j = f i then s i else 0) [0..<n]) [0..<n]"

text \<open>
  The canonical maps: the reversal with \<open>n\<close> fixed indices at each end and the signs of
  \<open>C2.canonical_group\<close>; the shift by half the dimension of \<open>Klein4.canonical_group\<close>.
\<close>

definition cfix :: "nat \<Rightarrow> nat \<Rightarrow> nat \<Rightarrow> nat" where
  "cfix D n i = (if i < n \<or> D - n \<le> i then i else D - 1 - i)"

definition csign :: "bool \<Rightarrow> nat \<Rightarrow> nat \<Rightarrow> int" where
  "csign neg D i = (if neg \<and> i = D div 2 then -1 else 1)"

definition kshift :: "nat \<Rightarrow> nat \<Rightarrow> nat" where
  "kshift m i = (i + 2 * m) mod (4 * m)"

text \<open>
  The trace of the generator that \<open>C2.canonical_group\<close> builds for the dimension \<open>d\<close> and
  the request \<open>inv_dims\<close>: the number of coordinates it fixes, less one when the middle
  coordinate is negated (\<open>d\<close> odd, \<open>inv_dims\<close> even).
\<close>

definition canonical_trace :: "int \<Rightarrow> int \<Rightarrow> int" where
  "canonical_trace dim req =
     (if odd dim \<and> even req then req - 1 else if even dim \<and> odd req then req + 1 else req)"

section \<open>Structure of a generalized permutation matrix\<close>

lemma filter_one_index:
  assumes "length (filter Q xs) = 1"
  shows "\<exists>k. k < length xs \<and> Q (xs ! k) \<and> (\<forall>k'. k' < length xs \<and> Q (xs ! k') \<longrightarrow> k' = k)"
proof -
  from assms have "card {i. i < length xs \<and> Q (xs ! i)} = 1"
    by (simp add: length_filter_conv_card)
  then obtain k where k: "{i. i < length xs \<and> Q (xs ! i)} = {k}"
    by (metis card_1_singletonE)
  then have "k < length xs \<and> Q (xs ! k)" by blast
  moreover have "\<forall>k'. k' < length xs \<and> Q (xs ! k') \<longrightarrow> k' = k" using k by blast
  ultimately show ?thesis by blast
qed

lemma sum_list_single:
  assumes "k < n" and "\<And>j. j < n \<Longrightarrow> j \<noteq> k \<Longrightarrow> f j = (0::int)"
  shows "(\<Sum>j\<leftarrow>[0..<n]. f j) = f k"
proof -
  have "(\<Sum>j\<leftarrow>[0..<n]. f j) = (\<Sum>j\<in>{0..<n}. f j)"
    by (simp add: interv_sum_list_conv_sum_set_nat)
  also have "\<dots> = (\<Sum>j\<in>{0..<n}. if j = k then f k else 0)"
    by (rule sum.cong) (auto simp: assms)
  also have "\<dots> = f k" using assms(1) by simp
  finally show ?thesis .
qed

lemma valid_gpm_rowD:
  assumes "valid_gpm P" "i < length P"
  shows "length (P ! i) = length P"
    and "length (filter (\<lambda>v. v \<noteq> 0) (P ! i)) = 1"
    and "\<And>j. j < length P \<Longrightarrow> P ! i ! j = -1 \<or> P ! i ! j = 0 \<or> P ! i ! j = 1"
  using assms by (auto simp: valid_gpm_def list_all_length)

lemma valid_gpm_colD:
  assumes "valid_gpm P" "j < length P"
  shows "length (filter (\<lambda>r. r ! j \<noteq> 0) P) = 1"
  using assms by (auto simp: valid_gpm_def list_all_length)

lemma gpm_row:
  assumes v: "valid_gpm P" and i: "i < length P"
  shows "perm_of P i < length P"
    and "sgn_of P i = 1 \<or> sgn_of P i = -1"
    and "\<And>j. j < length P \<Longrightarrow> P ! i ! j = (if j = perm_of P i then sgn_of P i else 0)"
proof -
  let ?n = "length P" and ?r = "P ! i"
  have len: "length ?r = ?n" by (rule valid_gpm_rowD[OF v i])
  from filter_one_index[OF valid_gpm_rowD(2)[OF v i]] len
  obtain k where k: "k < ?n" "?r ! k \<noteq> 0" and uniq: "\<And>k'. k' < ?n \<Longrightarrow> ?r ! k' \<noteq> 0 \<Longrightarrow> k' = k"
    by auto
  have zero: "\<And>j. j < ?n \<Longrightarrow> j \<noteq> k \<Longrightarrow> ?r ! j = 0" using uniq by blast
  have pm: "?r ! k = 1 \<or> ?r ! k = -1" using valid_gpm_rowD(3)[OF v i k(1)] k(2) by auto
  have "sum_list ?r = (\<Sum>j\<leftarrow>[0..<?n]. ?r ! j)"
    using len by (metis map_nth)
  also have "\<dots> = ?r ! k" by (rule sum_list_single[OF k(1)]) (simp add: zero)
  finally have s: "sgn_of P i = ?r ! k" by (simp add: sgn_of_def)
  have "(\<Sum>j\<leftarrow>[0..<?n]. \<bar>?r ! j\<bar> * int j) = \<bar>?r ! k\<bar> * int k"
    by (rule sum_list_single[OF k(1)]) (simp add: zero)
  also have "\<dots> = int k" using pm by auto
  finally have p: "perm_of P i = k" using i by (simp add: perm_of_def abs_dot_arange_def)
  show "perm_of P i < length P" using p k by simp
  show "sgn_of P i = 1 \<or> sgn_of P i = -1" using s pm by simp
  fix j assume "j < ?n"
  then show "P ! i ! j = (if j = perm_of P i then sgn_of P i else 0)"
    using p s zero by auto
qed

lemma gpm_perm_inj:
  assumes v: "valid_gpm P" and i: "i < length P" and i': "i' < length P"
    and eq: "perm_of P i = perm_of P i'"
  shows "i = i'"
proof -
  let ?j = "perm_of P i"
  have j: "?j < length P" by (rule gpm_row(1)[OF v i])
  from filter_one_index[OF valid_gpm_colD[OF v j]]
  obtain k where uniq: "\<And>k'. k' < length P \<Longrightarrow> P ! k' ! ?j \<noteq> 0 \<Longrightarrow> k' = k" by auto
  have "P ! i ! ?j \<noteq> 0" using gpm_row(2,3)[OF v i] j by auto
  moreover have "P ! i' ! ?j \<noteq> 0" using gpm_row(2,3)[OF v i'] j eq by auto
  ultimately show ?thesis using uniq i i' by metis
qed

lemma gpm_perm_bij:
  assumes v: "valid_gpm P"
  shows "bij_betw (perm_of P) {..<length P} {..<length P}"
proof -
  have inj: "inj_on (perm_of P) {..<length P}"
    by (rule inj_onI) (auto intro: gpm_perm_inj[OF v])
  have sub: "perm_of P ` {..<length P} \<subseteq> {..<length P}"
    using gpm_row(1)[OF v] by auto
  have "perm_of P ` {..<length P} = {..<length P}"
    by (rule card_subset_eq) (use sub inj in \<open>auto simp: card_image\<close>)
  with inj show ?thesis by (simp add: bij_betw_def)
qed

lemma takeWhile_index:
  assumes "k < length xs" "\<not> Q (xs ! k)" "\<And>j. j < k \<Longrightarrow> Q (xs ! j)"
  shows "length (takeWhile Q xs) = k"
proof -
  have "k \<le> length (takeWhile Q xs)"
    by (rule length_takeWhile_less_P_nth) (use assms in auto)
  moreover have "\<not> k < length (takeWhile Q xs)"
    using assms(2) nth_length_takeWhile takeWhile_nth
    by (metis nth_mem set_takeWhileD)
  ultimately show ?thesis by simp
qed

lemma gpm_nonzero_col:
  assumes v: "valid_gpm P" and i: "i < length P"
  shows "nonzero_col P i = perm_of P i" and "row_sign P i = sgn_of P i"
proof -
  let ?r = "P ! i" and ?k = "perm_of P i"
  have len: "length ?r = length P" by (rule valid_gpm_rowD[OF v i])
  have k: "?k < length P" by (rule gpm_row(1)[OF v i])
  have nz: "?r ! ?k \<noteq> 0" using gpm_row(2,3)[OF v i] k by auto
  have z: "\<And>j. j < ?k \<Longrightarrow> ?r ! j = 0" using gpm_row(3)[OF v i] k by auto
  have "length (takeWhile (\<lambda>v. v = 0) ?r) = ?k"
    by (rule takeWhile_index) (use z nz k len in auto)
  then show a: "nonzero_col P i = ?k" by (simp add: nonzero_col_def)
  show "row_sign P i = sgn_of P i" using gpm_row(3)[OF v i k] a by (simp add: row_sign_def)
qed

subsection \<open>The orbit loop returns the cycles of the permutation\<close>

lemma follow_inv:
  "follow w a cyc pend = (cyc', pend') \<Longrightarrow> distinct (cyc @ pend) \<Longrightarrow>
   distinct (cyc' @ pend') \<and> set (cyc' @ pend') = set (cyc @ pend)"
proof (induction w a cyc pend rule: follow.induct)
  case (1 w a cyc pend)
  show ?case
  proof (cases "w ! a \<in> set pend")
    case True
    from 1(2) True have f: "follow w (w ! a) (cyc @ [w ! a]) (removeAll (w ! a) pend) = (cyc', pend')"
      by (subst (asm) follow.simps) simp
    from 1(3) True have d: "distinct ((cyc @ [w ! a]) @ removeAll (w ! a) pend)"
      by (auto simp: distinct_removeAll)
    from 1(1)[OF True f d] True show ?thesis by auto
  next
    case False
    with 1(2) have "cyc' = cyc" "pend' = pend" by (subst (asm) follow.simps, simp)+
    with 1(3) show ?thesis by simp
  qed
qed

lemma chain_snoc:
  assumes "chain w cyc" "cyc \<noteq> []"
  shows "chain w (cyc @ [w ! last cyc])"
  unfolding chain_def
proof (intro allI impI)
  fix i assume "Suc i < length (cyc @ [w ! last cyc])"
  then have i: "i < length cyc" by simp
  show "(cyc @ [w ! last cyc]) ! Suc i = w ! ((cyc @ [w ! last cyc]) ! i)"
  proof (cases "Suc i < length cyc")
    case True
    with assms(1) i show ?thesis by (simp add: chain_def nth_append)
  next
    case False
    with i have e: "Suc i = length cyc" by simp
    then have "last cyc = cyc ! i" using assms(2) by (simp add: last_conv_nth flip: e)
    with e i show ?thesis by (simp add: nth_append)
  qed
qed

lemma follow_chain:
  "follow w a cyc pend = (cyc', pend') \<Longrightarrow> cyc \<noteq> [] \<Longrightarrow> last cyc = a \<Longrightarrow> chain w cyc \<Longrightarrow>
   chain w cyc' \<and> cyc' \<noteq> [] \<and> hd cyc' = hd cyc \<and> w ! last cyc' \<notin> set pend'"
proof (induction w a cyc pend rule: follow.induct)
  case (1 w a cyc pend)
  show ?case
  proof (cases "w ! a \<in> set pend")
    case True
    from 1(2) True have f: "follow w (w ! a) (cyc @ [w ! a]) (removeAll (w ! a) pend) = (cyc', pend')"
      by (subst (asm) follow.simps) simp
    have c: "chain w (cyc @ [w ! a])" using chain_snoc[OF 1(5) 1(3)] 1(4) by simp
    from 1(1)[OF True f _ _ c] 1(3) show ?thesis by (simp add: hd_append)
  next
    case False
    with 1(2) have "cyc' = cyc" "pend' = pend" by (subst (asm) follow.simps, simp)+
    with 1 False show ?thesis by simp
  qed
qed

lemma is_cycle_step:
  assumes "is_cycle w cyc" "j < length cyc"
  shows "w ! (cyc ! j) = cyc ! (Suc j mod length cyc)"
proof (cases "Suc j < length cyc")
  case True
  with assms show ?thesis by (simp add: is_cycle_def chain_def)
next
  case False
  with assms have e: "Suc j = length cyc" by auto
  then have "last cyc = cyc ! j" "hd cyc = cyc ! 0"
    using assms by (simp_all add: is_cycle_def last_conv_nth hd_conv_nth flip: e)
  with assms e show ?thesis by (simp add: is_cycle_def)
qed

text \<open>A closed set of indices, a starting point in it: the inner loop returns a cycle.\<close>

lemma follow_cycle:
  assumes f: "follow w a [a] (removeAll a pend) = (cyc, pend')"
    and d: "distinct pend" and a: "a \<in> set pend"
    and closed: "\<forall>b \<in> set pend. w ! b \<in> set pend"
    and inj: "inj_on ((!) w) (set pend)"
  shows "is_cycle w cyc" and "distinct (cyc @ pend')" and "set (cyc @ pend') = set pend"
    and "\<forall>b \<in> set pend'. w ! b \<in> set pend'"
proof -
  have d0: "distinct ([a] @ removeAll a pend)" using d by (simp add: distinct_removeAll)
  from follow_inv[OF f d0] a
  show dd: "distinct (cyc @ pend')" and ss: "set (cyc @ pend') = set pend" by auto
  have "chain w [a]" by (simp add: chain_def)
  from follow_chain[OF f _ _ this]
  have ch: "chain w cyc" and ne: "cyc \<noteq> []" and hd: "hd cyc = a" and out: "w ! last cyc \<notin> set pend'"
    by auto
  have sub: "set cyc \<subseteq> set pend" using ss by auto
  have pred: "\<exists>j. Suc j < length cyc \<and> x = w ! (cyc ! j)"
    if "x \<in> set cyc" "x \<noteq> hd cyc" for x
  proof -
    from that(1) obtain j where j: "j < length cyc" "cyc ! j = x" by (auto simp: in_set_conv_nth)
    with that(2) ne have "j \<noteq> 0" by (cases "j = 0") (auto simp: hd_conv_nth)
    then obtain j' where j': "j = Suc j'" by (cases j) auto
    with j ch have "x = w ! (cyc ! j')" by (auto simp: chain_def)
    then show ?thesis using j j' by auto
  qed
  have dc: "distinct cyc" using dd by simp
  have lastmem: "last cyc \<in> set pend" using ne sub by auto
  have wl: "w ! last cyc \<in> set cyc" using closed lastmem out ss by auto
  have wback: "w ! last cyc = hd cyc"
  proof (rule ccontr)
    assume neq: "w ! last cyc \<noteq> hd cyc"
    from pred[OF wl neq]
    obtain j where j: "Suc j < length cyc" "w ! last cyc = w ! (cyc ! j)" by auto
    have "cyc ! j \<in> set pend" using j(1) sub by (auto simp: subset_eq)
    from inj_onD[OF inj j(2) lastmem this] have "cyc ! (length cyc - 1) = cyc ! j"
      using ne by (simp add: last_conv_nth)
    with dc j(1) have "length cyc - 1 = j" by (simp add: nth_eq_iff_index_eq)
    with j(1) show False by simp
  qed
  show "is_cycle w cyc" using ne dc ch wback by (simp add: is_cycle_def)
  show "\<forall>b \<in> set pend'. w ! b \<in> set pend'"
  proof
    fix b assume b: "b \<in> set pend'"
    show "w ! b \<in> set pend'"
    proof (rule ccontr)
      assume nin: "w ! b \<notin> set pend'"
      have bp: "b \<in> set pend" using b ss by auto
      have bc: "b \<notin> set cyc" using b dd by auto
      from closed bp nin ss have wc: "w ! b \<in> set cyc" by auto
      show False
      proof (cases "w ! b = hd cyc")
        case True
        with wback have "w ! b = w ! last cyc" by simp
        from inj_onD[OF inj this bp lastmem] bc ne show False by simp
      next
        case False
        from pred[OF wc False] obtain j where j: "Suc j < length cyc" "w ! b = w ! (cyc ! j)" by auto
        have "cyc ! j \<in> set pend" using j(1) sub by (auto simp: subset_eq)
        from inj_onD[OF inj j(2) bp this] bc j(1) show False by simp
      qed
    qed
  qed
qed

lemma orbit_loop_inv:
  assumes "distinct (concat cycles @ pend)"
    and "\<forall>b \<in> set pend. w ! b \<in> set pend"
    and "inj_on ((!) w) (set pend)"
    and "cycles_ok w cycles"
  shows "distinct (concat (orbit_loop pick w pend cycles)) \<and>
     set (concat (orbit_loop pick w pend cycles)) = set (concat cycles @ pend) \<and>
     cycles_ok w (orbit_loop pick w pend cycles)"
  using assms
proof (induction pick w pend cycles rule: orbit_loop.induct)
  case (1 pick w pend cycles)
  show ?case
  proof (cases "pend = []")
    case True
    with 1(2,5) show ?thesis by (subst (1 2 3) orbit_loop.simps) simp
  next
    case False
    define a where "a = set_pop pick pend"
    define r where "r = follow w a [a] (removeAll a pend)"
    have am: "a \<in> set pend" using False by (simp add: a_def set_pop_mem)
    have r: "follow w a [a] (removeAll a pend) = (fst r, snd r)" by (simp add: r_def)
    from 1(2) have dp: "distinct pend" by simp
    note fc = follow_cycle[OF r dp am 1(3) 1(4)]
    have a1: "distinct (concat cycles)" "set (concat cycles) \<inter> set pend = {}"
      using 1(2) by simp_all
    have "set (concat cycles) \<inter> set (fst r @ snd r) = {}"
      using a1(2) by (simp only: fc(3))
    with a1(1) fc(2) have "distinct (concat cycles @ (fst r @ snd r))"
      by (simp only: distinct_append simp_thms)
    then have dist: "distinct (concat (cycles @ [fst r]) @ snd r)" by simp
    have "set (concat (cycles @ [fst r]) @ snd r) = set (concat cycles) \<union> set (fst r @ snd r)"
      by (simp add: Un_assoc)
    also have "\<dots> = set (concat cycles) \<union> set pend" by (simp only: fc(3))
    also have "\<dots> = set (concat cycles @ pend)" by simp
    finally have seteq: "set (concat (cycles @ [fst r]) @ snd r) = set (concat cycles @ pend)" .
    have "set (snd r) \<subseteq> set (fst r @ snd r)" by simp
    then have sub: "set (snd r) \<subseteq> set pend" by (simp only: fc(3))
    have inj': "inj_on ((!) w) (set (snd r))" by (rule inj_on_subset[OF 1(4) sub])
    have ok': "cycles_ok w (cycles @ [fst r])" using 1(5) fc(1) by (simp add: cycles_ok_def)
    have step: "orbit_loop pick w pend cycles = orbit_loop pick w (snd r) (cycles @ [fst r])"
      using False by (subst orbit_loop.simps) (simp add: Let_def a_def r_def)
    note IH = 1(1)[OF False a_def r_def dist fc(4) inj' ok']
    show ?thesis using IH by (simp only: step seteq)
  qed
qed

lemma abs_dot_arange_nth:
  "i < length P \<Longrightarrow> abs_dot_arange P ! i = perm_of P i"
  by (simp add: perm_of_def)

lemma cycles_of_props:
  assumes v: "valid_gpm P"
  shows "distinct (concat (cycles_of pick P))"
    and "set (concat (cycles_of pick P)) = {0..<length P}"
    and "cycles_ok (abs_dot_arange P) (cycles_of pick P)"
proof -
  let ?w = "abs_dot_arange P" and ?n = "length P"
  have c: "\<forall>b \<in> set [0..<?n]. ?w ! b \<in> set [0..<?n]"
    using gpm_row(1)[OF v] by (simp add: perm_of_def)
  have i: "inj_on ((!) ?w) (set [0..<?n])"
    by (rule inj_onI) (use gpm_perm_inj[OF v] in \<open>simp add: perm_of_def\<close>)
  have d0: "distinct (concat [] @ [0..<?n])" by simp
  have ok0: "cycles_ok ?w []" by (simp add: cycles_ok_def)
  note res = orbit_loop_inv[where cycles = "[]" and pick = pick, OF d0 c i ok0]
  show "distinct (concat (cycles_of pick P))"
    unfolding cycles_of_def using res by (rule conjunct1)
  have "set (concat (cycles_of pick P)) = set (concat [] @ [0..<?n])"
    unfolding cycles_of_def using res by (elim conjE)
  then show "set (concat (cycles_of pick P)) = {0..<length P}" by simp
  show "cycles_ok (abs_dot_arange P) (cycles_of pick P)"
    unfolding cycles_of_def using res by (elim conjE)
qed

lemma distinct_concat_disjoint:
  "distinct (concat xs) \<Longrightarrow> i < j \<Longrightarrow> j < length xs \<Longrightarrow> set (xs ! i) \<inter> set (xs ! j) = {}"
proof (induction xs arbitrary: i j)
  case Nil
  then show ?case by simp
next
  case (Cons x xs)
  show ?case
  proof (cases i)
    case 0
    with Cons.prems obtain j' where j': "j = Suc j'" "j' < length xs" by (cases j) auto
    then have "xs ! j' \<in> set xs" by simp
    then have "set (xs ! j') \<subseteq> set (concat xs)" by auto
    with Cons.prems(1) 0 j' show ?thesis by auto
  next
    case (Suc i')
    with Cons.prems obtain j' where "j = Suc j'" "i' < j'" "j' < length xs" by (cases j) auto
    with Cons Suc show ?thesis by simp
  qed
qed

subsection \<open>Orbits of the underlying permutation\<close>

lemma cycle_iterate:
  assumes cyc: "is_cycle w cyc" and sub: "set cyc \<subseteq> {..<n}"
    and f: "\<forall>a<n. f a = w ! a" and j: "j < length cyc"
  shows "(f ^^ t) (cyc ! j) = cyc ! ((j + t) mod length cyc)"
proof (induction t)
  case 0
  with j show ?case by simp
next
  case (Suc t)
  let ?m = "(j + t) mod length cyc"
  have pos: "0 < length cyc" using j by linarith
  have m: "?m < length cyc" using pos by simp
  then have "cyc ! ?m < n" using sub by (auto simp: subset_eq)
  with f have "f (cyc ! ?m) = w ! (cyc ! ?m)" by simp
  also have "\<dots> = cyc ! (Suc ?m mod length cyc)" by (rule is_cycle_step[OF cyc m])
  also have "Suc ?m mod length cyc = (j + Suc t) mod length cyc" by (simp add: mod_Suc_eq)
  finally show ?case using Suc by simp
qed

lemma orbit_of_cycle:
  assumes cyc: "is_cycle w cyc" and sub: "set cyc \<subseteq> {..<n}"
    and f: "\<forall>a<n. f a = w ! a" and a: "a \<in> set cyc"
  shows "orbit_of f a = set cyc"
proof -
  from a obtain j where j: "j < length cyc" "cyc ! j = a" by (auto simp: in_set_conv_nth)
  note it = cycle_iterate[OF cyc sub f j(1), unfolded j(2)]
  show ?thesis
  proof (rule set_eqI, rule iffI)
    fix x assume "x \<in> orbit_of f a"
    then obtain t where "x = (f ^^ t) a" by (auto simp: orbit_of_def)
    moreover have "0 < length cyc" using j(1) by linarith
    ultimately show "x \<in> set cyc" using it by simp
  next
    fix x assume "x \<in> set cyc"
    then obtain m where m: "m < length cyc" "cyc ! m = x" by (auto simp: in_set_conv_nth)
    define t where "t = (if j \<le> m then m - j else m + length cyc - j)"
    have "(j + t) mod length cyc = m" using m(1) j(1) by (auto simp: t_def)
    with it[of t] m(2) have "x = (f ^^ t) a" by simp
    then show "x \<in> orbit_of f a" by (auto simp: orbit_of_def)
  qed
qed

lemma cycles_facts:
  assumes v: "valid_gpm P" and c: "cyc \<in> set (cycles_of pick P)"
  shows "is_cycle (abs_dot_arange P) cyc" and "set cyc \<subseteq> {..<length P}"
    and "distinct cyc" and "cyc \<noteq> []"
proof -
  show ic: "is_cycle (abs_dot_arange P) cyc"
    using cycles_of_props(3)[OF v, of pick] c by (simp add: cycles_ok_def)
  have "set cyc \<subseteq> set (concat (cycles_of pick P))" using c by auto
  then show "set cyc \<subseteq> {..<length P}"
    unfolding cycles_of_props(2)[OF v] by auto
  show "distinct cyc" "cyc \<noteq> []" using ic by (simp_all add: is_cycle_def)
qed

lemma orbits_eq:
  assumes v: "valid_gpm P"
  shows "orbits P = set ` set (cycles_of pick P)"
proof -
  let ?cs = "cycles_of pick P" and ?w = "abs_dot_arange P"
  have f: "\<forall>a<length P. nonzero_col P a = ?w ! a"
    using gpm_nonzero_col(1)[OF v] by (simp add: perm_of_def)
  show ?thesis
  proof (rule set_eqI, rule iffI)
    fix X assume "X \<in> orbits P"
    then obtain i where i: "i < length P" "X = orbit_of (nonzero_col P) i"
      by (auto simp: orbits_def)
    then have "i \<in> set (concat ?cs)" unfolding cycles_of_props(2)[OF v] by simp
    then obtain cyc where cyc: "cyc \<in> set ?cs" "i \<in> set cyc" by auto
    from orbit_of_cycle[OF cycles_facts(1,2)[OF v cyc(1)] f cyc(2)] i(2) cyc(1)
    show "X \<in> set ` set ?cs" by simp
  next
    fix X assume "X \<in> set ` set ?cs"
    then obtain cyc where cyc: "cyc \<in> set ?cs" "X = set cyc" by auto
    note cf = cycles_facts[OF v cyc(1)]
    have h: "hd cyc \<in> set cyc" using cf(4) by simp
    then have "hd cyc < length P" using cf(2) by auto
    moreover have "orbit_of (nonzero_col P) (hd cyc) = X"
      using orbit_of_cycle[OF cf(1,2) f h] cyc(2) by simp
    ultimately show "X \<in> orbits P" by (auto simp: orbits_def)
  qed
qed

section \<open>Claims on the orbit decomposition\<close>

text \<open>
  Claim C2. For a valid generalized permutation matrix \<open>P\<close> of size \<open>d\<close>, the vector
  \<open>w = |P| @ [0..d-1]\<close> holds at \<open>i\<close> the column of the nonzero entry of row \<open>i\<close>, and the
  orbit-discovery loop of \<open>get_equivariant_basis\<close>, whatever the pop order, returns a list
  of cycles of \<open>w\<close>: every list is non-empty, without repetition, each element is followed
  by its image under \<open>w\<close>, and \<open>w\<close> takes the last element back to the first. The sets of
  these cycles are the orbits of the underlying permutation; they are pairwise disjoint, their
  union is \<open>{0..d-1}\<close> and their sizes sum to \<open>d\<close>.
\<close>

theorem orbit_loop_partition:
  assumes "valid_gpm P"
  shows "(\<forall>i<length P. abs_dot_arange P ! i = nonzero_col P i) \<and>
         (\<forall>cyc \<in> set (cycles_of pick P).
            cyc \<noteq> [] \<and> distinct cyc \<and>
            (\<forall>i. Suc i < length cyc \<longrightarrow> cyc ! Suc i = abs_dot_arange P ! (cyc ! i)) \<and>
            abs_dot_arange P ! last cyc = hd cyc) \<and>
         set ` set (cycles_of pick P) = orbits P \<and>
         (\<forall>i j. i < j \<and> j < length (cycles_of pick P) \<longrightarrow>
                set (cycles_of pick P ! i) \<inter> set (cycles_of pick P ! j) = {}) \<and>
         \<Union> (set ` set (cycles_of pick P)) = {0..<length P} \<and>
         sum_list (map length (cycles_of pick P)) = length P"
proof -
  note cp = cycles_of_props[OF assms, of pick]
  have w: "\<forall>i<length P. abs_dot_arange P ! i = nonzero_col P i"
    using gpm_nonzero_col(1)[OF assms] by (simp add: perm_of_def)
  have cy: "\<forall>cyc \<in> set (cycles_of pick P).
            cyc \<noteq> [] \<and> distinct cyc \<and>
            (\<forall>i. Suc i < length cyc \<longrightarrow> cyc ! Suc i = abs_dot_arange P ! (cyc ! i)) \<and>
            abs_dot_arange P ! last cyc = hd cyc"
  proof
    fix cyc assume "cyc \<in> set (cycles_of pick P)"
    from cycles_facts(1)[OF assms this]
    show "cyc \<noteq> [] \<and> distinct cyc \<and>
            (\<forall>i. Suc i < length cyc \<longrightarrow> cyc ! Suc i = abs_dot_arange P ! (cyc ! i)) \<and>
            abs_dot_arange P ! last cyc = hd cyc"
      by (simp add: is_cycle_def chain_def)
  qed
  have ob: "set ` set (cycles_of pick P) = orbits P"
    by (rule orbits_eq[OF assms, symmetric])
  have dj: "\<forall>i j. i < j \<and> j < length (cycles_of pick P) \<longrightarrow>
                set (cycles_of pick P ! i) \<inter> set (cycles_of pick P ! j) = {}"
    using distinct_concat_disjoint[OF cp(1)] by blast
  have un: "\<Union> (set ` set (cycles_of pick P)) = {0..<length P}"
    using cp(2) by simp
  have "length (concat (cycles_of pick P)) = card (set (concat (cycles_of pick P)))"
    using cp(1) by (simp only: distinct_card)
  also have "\<dots> = length P" by (simp only: cp(2) card_atLeastLessThan minus_nat.diff_0)
  finally have sz: "sum_list (map length (cycles_of pick P)) = length P"
    by (simp only: length_concat)
  from w cy ob dj un sz show ?thesis by (intro conjI)
qed

theorem orbit_loop_partition_witness:
  "valid_gpm [[0, 1, 0], [-1, 0, 0], [0, 0, 1]] \<and>
   cycles_of (\<lambda>S. 0) [[0, 1, 0], [-1, 0, 0], [0, 0, 1]] = [[0, 1], [2]] \<and>
   orbits [[0, 1, 0], [-1, 0, 0], [0, 0, 1]] = {{0, 1}, {2}} \<and>
   \<Union> (set ` set (cycles_of (\<lambda>S. 0) [[0, 1, 0], [-1, 0, 0], [0, 0, 1]])) = {0..<3} \<and>
   sum_list (map length (cycles_of (\<lambda>S. 0) [[0, 1, 0], [-1, 0, 0], [0, 0, 1]])) = 3"
proof -
  let ?P = "[[0, 1, 0], [-1, 0, 0], [0::int, 0, 1]]"
  have v: "valid_gpm ?P"
    by (simp add: valid_gpm_def)
  have c: "cycles_of (\<lambda>S. 0) ?P = [[0, 1], [2]]"
    by code_simp
  note t = orbit_loop_partition[OF v, of "\<lambda>S. 0"]
  from t have o: "set ` set (cycles_of (\<lambda>S. 0) ?P) = orbits ?P" by (elim conjE)
  have o': "orbits ?P = {{0, 1}, {2}}" unfolding o[symmetric] c by simp
  have u: "\<Union> (set ` set (cycles_of (\<lambda>S. 0) ?P)) = {0..<3}" unfolding c by auto
  have s: "sum_list (map length (cycles_of (\<lambda>S. 0) ?P)) = 3" unfolding c by simp
  from v c o' u s show ?thesis by (intro conjI)
qed

subsection \<open>The columns of the basis\<close>

lemma length_upd_col [simp]: "length (upd_col c cyc vals) = length c"
  by (induction c cyc vals rule: upd_col.induct) simp_all

lemma upd_col_notin: "i \<notin> set cyc \<Longrightarrow> upd_col c cyc vals ! i = c ! i"
  by (induction c cyc vals rule: upd_col.induct) auto

lemma upd_col_nth:
  "distinct cyc \<Longrightarrow> length vals = length cyc \<Longrightarrow> j < length cyc \<Longrightarrow> cyc ! j < length c \<Longrightarrow>
   upd_col c cyc vals ! (cyc ! j) = vals ! j"
proof (induction c cyc vals arbitrary: j rule: upd_col.induct)
  case (1 c a cyc v vals)
  show ?case
  proof (cases j)
    case 0
    with 1(2,5) show ?thesis by (simp add: upd_col_notin)
  next
    case (Suc j')
    with 1 show ?thesis by simp
  qed
qed simp_all

lemma app_col_zero: "map (\<lambda>r. r @ [0]) Q = app_col Q (replicate (length Q) 0)"
  by (rule nth_equalityI) (simp_all add: app_col_def)

lemma app_col_update:
  assumes "a < length Q" "length c = length Q"
  shows "(app_col Q c)[a := (app_col Q c ! a)[length (app_col Q c ! a) - 1 := v]] = app_col Q (c[a := v])"
proof (rule nth_equalityI)
  show "length ((app_col Q c)[a := (app_col Q c ! a)[length (app_col Q c ! a) - 1 := v]])
      = length (app_col Q (c[a := v]))" by (simp add: app_col_def)
next
  fix i assume "i < length ((app_col Q c)[a := (app_col Q c ! a)[length (app_col Q c ! a) - 1 := v]])"
  then have i: "i < length Q" by (simp add: app_col_def)
  show "(app_col Q c)[a := (app_col Q c ! a)[length (app_col Q c ! a) - 1 := v]] ! i
      = app_col Q (c[a := v]) ! i"
  proof (cases "i = a")
    case True
    with i assms show ?thesis by (simp add: app_col_def)
  next
    case False
    with i show ?thesis by (simp add: app_col_def)
  qed
qed

lemma assign_last_col:
  "set cyc \<subseteq> {..<length Q} \<Longrightarrow> length c = length Q \<Longrightarrow>
   assign_last (app_col Q c) cyc vals = app_col Q (upd_col c cyc vals)"
proof (induction c cyc vals rule: upd_col.induct)
  case (1 c a cyc v vals)
  then have a: "a < length Q" and sub: "set cyc \<subseteq> {..<length Q}" by auto
  have len: "length (c[a := v]) = length Q" using 1(3) by simp
  show ?case using app_col_update[OF a 1(3), of v] 1(1)[OF sub len] by simp
qed simp_all

lemma basis_loop_rows:
  "length Q = n \<Longrightarrow> \<forall>cyc \<in> set cycles. set cyc \<subseteq> {..<n} \<Longrightarrow>
   basis_loop P cycles Q =
     map (\<lambda>i. Q ! i @ map (\<lambda>cyc. upd_col (replicate n 0) cyc (cyc_vals P cyc) ! i)
                         (filter (good P) cycles)) [0..<n]"
proof (induction cycles arbitrary: Q)
  case Nil
  then show ?case by (simp add: list_eq_iff_nth_eq)
next
  case (Cons cyc cycles)
  have sub: "set cyc \<subseteq> {..<length Q}" and rest: "\<forall>cyc \<in> set cycles. set cyc \<subseteq> {..<n}"
    using Cons.prems by auto
  have p: "map (\<lambda>a. sum_list (P ! a)) cyc = map (sgn_of P) cyc" by (simp add: sgn_of_def)
  show ?case
  proof (cases "good P cyc")
    case True
    let ?Q1 = "app_col Q (upd_col (replicate n 0) cyc (cyc_vals P cyc))"
    have step: "basis_loop P (cyc # cycles) Q = basis_loop P cycles ?Q1"
      using True Cons.prems(1) assign_last_col[OF sub, of "replicate n 0" "cyc_vals P cyc"]
      by (simp add: p Let_def good_def app_col_zero cyc_vals_def)
    have len: "length ?Q1 = n" using Cons.prems(1) by (simp add: app_col_def)
    show ?thesis
      unfolding step Cons.IH[OF len rest] using True Cons.prems(1)
      by (simp add: app_col_def)
  next
    case False
    then have step: "basis_loop P (cyc # cycles) Q = basis_loop P cycles Q"
      by (simp add: p Let_def good_def)
    show ?thesis unfolding step Cons.IH[OF Cons.prems(1) rest] using False by simp
  qed
qed

lemma basis_rows:
  assumes v: "valid_gpm P"
  shows "get_equivariant_basis pick P =
     map (\<lambda>i. map (\<lambda>cyc. column P cyc ! i) (filter (good P) (cycles_of pick P))) [0..<length P]"
proof -
  have "\<forall>cyc \<in> set (cycles_of pick P). set cyc \<subseteq> {..<length P}"
    using cycles_of_props(2)[OF v, of pick] by auto
  from basis_loop_rows[OF _ this, of "replicate (length P) []" P]
  show ?thesis by (simp add: get_equivariant_basis_def Let_def column_def)
qed

lemma prod_list_drop_butlast:
  "prod_list (drop j (butlast xs)) = (\<Prod>t = j..<length xs - 1. (xs ! t :: int))"
proof -
  have "drop j (butlast xs) = map ((!) xs) [j..<length xs - 1]"
    by (rule nth_equalityI) (simp_all add: nth_butlast)
  then have "prod_list (drop j (butlast xs)) = prod_list (map ((!) xs) [j..<length xs - 1])"
    by simp
  also have "\<dots> = prod ((!) xs) (set [j..<length xs - 1])"
    by (rule prod.distinct_set_conv_list[symmetric]) simp
  finally show ?thesis by simp
qed

lemma column_in:
  assumes "distinct cyc" "set cyc \<subseteq> {..<length P}" "j < length cyc"
  shows "column P cyc ! (cyc ! j) = prod_list (drop j (butlast (map (sgn_of P) cyc)))"
proof -
  have "cyc ! j < length (replicate (length P) (0::int))" using assms(2,3) by (auto simp: subset_eq)
  from upd_col_nth[OF assms(1) _ assms(3) this, of "cyc_vals P cyc"] assms(3)
  show ?thesis by (simp add: column_def cyc_vals_def)
qed

lemma column_out:
  assumes "i \<notin> set cyc" "i < length P"
  shows "column P cyc ! i = 0"
  using assms by (simp add: column_def upd_col_notin)

lemma column_last:
  assumes "distinct cyc" "set cyc \<subseteq> {..<length P}" "cyc \<noteq> []"
  shows "column P cyc ! (last cyc) = 1"
proof -
  have "length cyc - 1 < length cyc" using assms(3) by simp
  from column_in[OF assms(1,2) this] assms(3) show ?thesis by (simp add: last_conv_nth)
qed

lemma sgn_sq: "valid_gpm P \<Longrightarrow> i < length P \<Longrightarrow> sgn_of P i * sgn_of P i = 1"
  using gpm_row(2)[of P i] by auto

lemma prod_list_pm: "\<forall>x \<in> set xs. x = 1 \<or> x = -1 \<Longrightarrow> prod_list xs = 1 \<or> prod_list xs = (-1::int)"
  by (induction xs) auto

lemma column_range:
  assumes v: "valid_gpm P" and "distinct cyc" "set cyc \<subseteq> {..<length P}" "i < length P"
  shows "column P cyc ! i = -1 \<or> column P cyc ! i = 0 \<or> column P cyc ! i = 1"
proof (cases "i \<in> set cyc")
  case True
  then obtain j where j: "j < length cyc" "cyc ! j = i" by (auto simp: in_set_conv_nth)
  have "\<forall>x \<in> set (drop j (butlast (map (sgn_of P) cyc))). x = 1 \<or> x = -1"
  proof
    fix x assume "x \<in> set (drop j (butlast (map (sgn_of P) cyc)))"
    then have "x \<in> set (map (sgn_of P) cyc)" by (meson in_set_butlastD in_set_dropD)
    then obtain a where "a \<in> set cyc" "x = sgn_of P a" by auto
    with gpm_row(2)[OF v, of a] assms(3) show "x = 1 \<or> x = -1" by auto
  qed
  from prod_list_pm[OF this] column_in[OF assms(2,3) j(1)] j(2) show ?thesis by auto
next
  case False
  with column_out[OF False assms(4)] show ?thesis by simp
qed

text \<open>The column of a cycle with sign product one is fixed by \<open>P\<close>.\<close>

lemma column_fixed:
  assumes v: "valid_gpm P" and cyc: "is_cycle (abs_dot_arange P) cyc"
    and sub: "set cyc \<subseteq> {..<length P}" and g: "good P cyc" and i: "i < length P"
  shows "sgn_of P i * column P cyc ! (perm_of P i) = column P cyc ! i"
proof -
  let ?k = "length cyc" and ?s = "map (sgn_of P) cyc"
  have dc: "distinct cyc" and ne: "cyc \<noteq> []" using cyc by (simp_all add: is_cycle_def)
  have step: "perm_of P (cyc ! j) = cyc ! (Suc j mod ?k)" if "j < ?k" for j
    using is_cycle_step[OF cyc that] by (simp add: perm_of_def)
  show ?thesis
  proof (cases "i \<in> set cyc")
    case True
    then obtain j where j: "j < ?k" "cyc ! j = i" by (auto simp: in_set_conv_nth)
    show ?thesis
    proof (cases "Suc j < ?k")
      case True
      have "drop j (butlast ?s) = sgn_of P i # drop (Suc j) (butlast ?s)"
        using True j by (simp add: Cons_nth_drop_Suc[symmetric] nth_butlast)
      then have "column P cyc ! i = sgn_of P i * column P cyc ! (cyc ! Suc j)"
        using column_in[OF dc sub j(1)] column_in[OF dc sub True] j(2) by simp
      with step[OF j(1)] True j(2) show ?thesis by simp
    next
      case False
      with j have e: "Suc j = ?k" by simp
      then have jl: "j = ?k - 1" by simp
      have "0 < ?k" using ne by simp
      have "prod_list ?s = prod_list (butlast ?s) * sgn_of P i"
        using ne j(2) jl by (subst append_butlast_last_id[symmetric, of ?s])
          (simp_all add: last_map last_conv_nth del: append_butlast_last_id)
      then have "sgn_of P i * column P cyc ! (cyc ! 0) = 1"
        using column_in[OF dc sub \<open>0 < ?k\<close>] g by (simp add: good_def mult.commute)
      moreover have "column P cyc ! i = 1"
        using column_last[OF dc sub ne] j(2) jl ne by (simp add: last_conv_nth)
      moreover have "perm_of P i = cyc ! 0" using step[OF j(1)] e j(2) by simp
      ultimately show ?thesis by simp
    qed
  next
    case False
    have "perm_of P i \<notin> set cyc"
    proof
      assume "perm_of P i \<in> set cyc"
      then obtain j where j: "j < ?k" "cyc ! j = perm_of P i" by (auto simp: in_set_conv_nth)
      define j' where "j' = (if j = 0 then ?k - 1 else j - 1)"
      have j': "j' < ?k" "Suc j' mod ?k = j" using j(1) by (auto simp: j'_def)
      have "cyc ! j' < length P" using sub j'(1) by (auto simp: subset_eq)
      moreover have "perm_of P (cyc ! j') = perm_of P i" using step[OF j'(1)] j'(2) j(2) by simp
      ultimately have "cyc ! j' = i" using gpm_perm_inj[OF v _ i] by blast
      with False j'(1) show False by auto
    qed
    with column_out[OF this gpm_row(1)[OF v i]] column_out[OF False i] show ?thesis by simp
  qed
qed

subsection \<open>Counting the orbits of sign product one\<close>

lemma cycles_distinct:
  assumes v: "valid_gpm P"
  shows "distinct (cycles_of pick P)" and "inj_on set (set (cycles_of pick P))"
proof -
  let ?cs = "cycles_of pick P"
  have neq: "set (?cs ! i) \<noteq> set (?cs ! j)" if "i < j" "j < length ?cs" for i j
  proof -
    have "?cs ! i \<in> set ?cs" using that by simp
    from cycles_facts(4)[OF v this] have "set (?cs ! i) \<noteq> {}" by simp
    with distinct_concat_disjoint[OF cycles_of_props(1)[OF v] that] show ?thesis by auto
  qed
  have neq': "set (?cs ! i) \<noteq> set (?cs ! j)" if "i \<noteq> j" "i < length ?cs" "j < length ?cs" for i j
  proof (cases "i < j")
    case True
    then show ?thesis using neq that by simp
  next
    case False
    with that have "j < i" by simp
    from neq[OF this that(2)] show ?thesis by simp
  qed
  show "distinct ?cs"
    unfolding distinct_conv_nth using neq' by metis
  show "inj_on set (set ?cs)"
  proof (rule inj_onI)
    fix x y assume "x \<in> set ?cs" "y \<in> set ?cs" "set x = set y"
    then obtain i j where "i < length ?cs" "?cs ! i = x" "j < length ?cs" "?cs ! j = y"
      by (auto simp: in_set_conv_nth)
    with neq'[of i j] \<open>set x = set y\<close> show "x = y" by auto
  qed
qed

lemma good_sign_product:
  assumes v: "valid_gpm P" and c: "cyc \<in> set (cycles_of pick P)"
  shows "good P cyc \<longleftrightarrow> sign_product P (set cyc) = 1"
proof -
  note cf = cycles_facts[OF v c]
  have "map (sgn_of P) cyc = map (row_sign P) cyc"
    using gpm_nonzero_col(2)[OF v] cf(2) by (auto simp: subset_eq)
  then have "prod_list (map (sgn_of P) cyc) = prod (row_sign P) (set cyc)"
    by (simp only: prod.distinct_set_conv_list[OF cf(3), of "row_sign P"])
  then show ?thesis by (simp add: good_def sign_product_def)
qed

lemma count_good_orbits:
  assumes v: "valid_gpm P"
  shows "card {X \<in> orbits P. sign_product P X = 1} = length (filter (good P) (cycles_of pick P))"
proof -
  let ?cs = "cycles_of pick P"
  have "{X \<in> orbits P. sign_product P X = 1} = set ` set (filter (good P) ?cs)"
    unfolding orbits_eq[OF v, of pick] using good_sign_product[OF v, of _ pick] by auto
  moreover have "inj_on set (set (filter (good P) ?cs))"
    by (rule inj_on_subset[OF cycles_distinct(2)[OF v]]) auto
  ultimately have "card {X \<in> orbits P. sign_product P X = 1} = card (set (filter (good P) ?cs))"
    by (simp add: card_image)
  also have "\<dots> = length (filter (good P) ?cs)"
    by (rule distinct_card) (simp add: cycles_distinct(1)[OF v])
  finally show ?thesis .
qed

lemma ncols_nth0: "A \<noteq> [] \<Longrightarrow> ncols A = length (A ! 0)"
  by (cases A) (simp_all add: ncols_def)

lemma basis_shape:
  assumes v: "valid_gpm P"
  shows "length (get_equivariant_basis pick P) = length P"
    and "i < length P \<Longrightarrow> length (get_equivariant_basis pick P ! i)
           = length (filter (good P) (cycles_of pick P))"
    and "i < length P \<Longrightarrow> c < length (filter (good P) (cycles_of pick P)) \<Longrightarrow>
           get_equivariant_basis pick P ! i ! c = column P (filter (good P) (cycles_of pick P) ! c) ! i"
  by (simp_all add: basis_rows[OF v])

lemma basis_ncols:
  assumes v: "valid_gpm P"
  shows "ncols (get_equivariant_basis pick P) = length (filter (good P) (cycles_of pick P))"
proof (cases "P = []")
  case True
  then have "cycles_of pick P = []" by (simp add: cycles_of_def orbit_loop.simps)
  moreover have "length (get_equivariant_basis pick P) = length P"
    by (rule basis_shape(1)[OF v])
  then have "length (get_equivariant_basis pick P) = 0" unfolding True by simp
  then have "get_equivariant_basis pick P = []" by simp
  ultimately show ?thesis by (simp add: ncols_def)
next
  case False
  then have "get_equivariant_basis pick P \<noteq> []" using basis_shape(1)[OF v, of pick] by auto
  from ncols_nth0[OF this] basis_shape(2)[OF v, of 0 pick] False show ?thesis by simp
qed

lemma basis_fixed:
  assumes v: "valid_gpm P"
  shows "matmul P (get_equivariant_basis pick P) = Inr (get_equivariant_basis pick P)"
proof -
  let ?Q = "get_equivariant_basis pick P" and ?n = "length P"
  let ?gs = "filter (good P) (cycles_of pick P)"
  have nc: "ncols P = length ?Q"
  proof (cases "P = []")
    case True
    then show ?thesis unfolding basis_shape(1)[OF v] by (simp add: ncols_def)
  next
    case False
    then have "0 < length P" by simp
    from ncols_nth0[OF False] valid_gpm_rowD(1)[OF v this] show ?thesis
      by (simp add: basis_shape(1)[OF v])
  qed
  have "map (\<lambda>r. map (\<lambda>j. \<Sum>k\<leftarrow>[0..<length ?Q]. r ! k * ?Q ! k ! j) [0..<ncols ?Q]) P = ?Q"
  proof (rule nth_equalityI)
    show "length (map (\<lambda>r. map (\<lambda>j. \<Sum>k\<leftarrow>[0..<length ?Q]. r ! k * ?Q ! k ! j) [0..<ncols ?Q]) P)
        = length ?Q" by (simp add: basis_shape(1)[OF v])
  next
    fix i assume "i < length (map (\<lambda>r. map (\<lambda>j. \<Sum>k\<leftarrow>[0..<length ?Q]. r ! k * ?Q ! k ! j) [0..<ncols ?Q]) P)"
    then have i: "i < ?n" by simp
    have "map (\<lambda>j. \<Sum>k\<leftarrow>[0..<?n]. P ! i ! k * ?Q ! k ! j) [0..<length ?gs] = ?Q ! i"
    proof (rule nth_equalityI)
      show "length (map (\<lambda>j. \<Sum>k\<leftarrow>[0..<?n]. P ! i ! k * ?Q ! k ! j) [0..<length ?gs]) = length (?Q ! i)"
        by (simp add: basis_shape(2)[OF v i])
    next
      fix c assume "c < length (map (\<lambda>j. \<Sum>k\<leftarrow>[0..<?n]. P ! i ! k * ?Q ! k ! j) [0..<length ?gs])"
      then have c: "c < length ?gs" by simp
      then have "?gs ! c \<in> set ?gs" by (rule nth_mem)
      then have mem: "?gs ! c \<in> set (cycles_of pick P)" and g: "good P (?gs ! c)" by auto
      note cf = cycles_facts[OF v mem]
      have pk: "perm_of P i < ?n" by (rule gpm_row(1)[OF v i])
      have "(\<Sum>k\<leftarrow>[0..<?n]. P ! i ! k * ?Q ! k ! c) = P ! i ! perm_of P i * ?Q ! perm_of P i ! c"
        by (rule sum_list_single[OF pk]) (simp add: gpm_row(3)[OF v i])
      also have "\<dots> = sgn_of P i * column P (?gs ! c) ! perm_of P i"
        by (simp add: gpm_row(3)[OF v i pk] basis_shape(3)[OF v pk c])
      also have "\<dots> = column P (?gs ! c) ! i"
        by (rule column_fixed[OF v cf(1,2) g i])
      also have "\<dots> = ?Q ! i ! c" by (simp add: basis_shape(3)[OF v i c])
      finally show "map (\<lambda>j. \<Sum>k\<leftarrow>[0..<?n]. P ! i ! k * ?Q ! k ! j) [0..<length ?gs] ! c = ?Q ! i ! c"
        using c by simp
    qed
    then show "map (\<lambda>r. map (\<lambda>j. \<Sum>k\<leftarrow>[0..<length ?Q]. r ! k * ?Q ! k ! j) [0..<ncols ?Q]) P ! i = ?Q ! i"
      using i by (simp add: basis_shape(1)[OF v] basis_ncols[OF v])
  qed
  with nc show ?thesis by (simp add: matmul_def)
qed

lemma prod_list_nth: "prod_list xs = (\<Prod>i<length xs. (xs ! i :: int))"
proof (induction xs rule: rev_induct)
  case Nil
  show ?case by simp
next
  case (snoc x xs)
  have "(\<Prod>i<length xs. (xs @ [x]) ! i) = (\<Prod>i<length xs. xs ! i)"
    by (rule prod.cong) (simp_all add: nth_append)
  with snoc show ?case by (simp add: lessThan_Suc)
qed

lemma good_cycles_eq:
  assumes v: "valid_gpm P"
  shows "good_cycles pick P = filter (good P) (cycles_of pick P)"
  unfolding good_cycles_def
proof (rule filter_cong[OF refl])
  fix cyc assume c: "cyc \<in> set (cycles_of pick P)"
  note cf = cycles_facts[OF v c]
  have e: "map (sgn_of P) cyc = map (row_sign P) cyc"
    using gpm_nonzero_col(2)[OF v] cf(2) by (auto simp: subset_eq)
  have "prod_list (map (sgn_of P) cyc) = (\<Prod>i<length cyc. row_sign P (cyc ! i))"
    unfolding e using prod_list_nth[of "map (row_sign P) cyc"] by simp
  then show "((\<Prod>i<length cyc. row_sign P (cyc ! i)) = 1) = good P cyc"
    by (simp add: good_def)
qed

section \<open>Claims on the equivariant basis\<close>

text \<open>
  Claim C1. For a valid generalized permutation matrix \<open>P\<close> the basis \<open>Q\<close> returned by
  \<open>get_equivariant_basis\<close> satisfies \<open>P @ Q = Q\<close> (all columns at once), and the number of
  columns of \<open>Q\<close> is the number of orbits of the underlying permutation of \<open>P\<close> whose
  product of row signs is \<open>+1\<close>; the orbits are those of the map sending a row to the column of
  its nonzero entry.
\<close>

theorem equivariant_basis_fixed:
  assumes "valid_gpm P"
  shows "matmul P (get_equivariant_basis pick P) = Inr (get_equivariant_basis pick P) \<and>
         ncols (get_equivariant_basis pick P) = card {X \<in> orbits P. sign_product P X = 1}"
  using basis_fixed[OF assms] basis_ncols[OF assms] count_good_orbits[OF assms] by simp

theorem equivariant_basis_fixed_witness:
  "valid_gpm [[0, 1, 0], [-1, 0, 0], [0, 0, 1]] \<and>
   get_equivariant_basis (\<lambda>S. 0) [[0, 1, 0], [-1, 0, 0], [0, 0, 1]] = [[0], [0], [1]] \<and>
   matmul [[0, 1, 0], [-1, 0, 0], [0, 0, 1]] [[0], [0], [1]] = Inr [[0], [0], [1]] \<and>
   card {X \<in> orbits [[0, 1, 0], [-1, 0, 0], [0, 0, 1]].
           sign_product [[0, 1, 0], [-1, 0, 0], [0, 0, 1]] X = 1} = 1"
proof -
  have v: "valid_gpm [[0, 1, 0], [-1, 0, 0], [0, 0, 1]]"
    by (simp add: valid_gpm_def)
  have q: "get_equivariant_basis (\<lambda>S. 0) [[0, 1, 0], [-1, 0, 0], [0, 0, 1]] = [[0], [0], [1]]"
    by code_simp
  from equivariant_basis_fixed[OF v, of "\<lambda>S. 0"] show ?thesis
    unfolding q using v q by (simp add: ncols_def)
qed

text \<open>
  Claim C3. Let \<open>cyc = [a\<^sub>0, \<dots>, a\<^sub>k\<^sub>-\<^sub>1]\<close> be the \<open>c\<close>-th orbit, in discovery order, among
  those whose row signs \<open>s\<^sub>i\<close> have product \<open>+1\<close>; it contributes column \<open>c\<close>. Then the entry
  of that column at \<open>a\<^sub>j\<close> is the product of \<open>s\<^sub>j, \<dots>, s\<^sub>k\<^sub>-\<^sub>2\<close>, the entry at \<open>a\<^sub>k\<^sub>-\<^sub>1\<close> is \<open>1\<close>,
  and the entries solve \<open>x\<^sub>j\<^sub>+\<^sub>1 = s\<^sub>j * x\<^sub>j\<close> around the cycle (indices modulo \<open>k\<close>), where
  \<open>a\<^sub>j\<^sub>+\<^sub>1\<close> is the column of the nonzero entry of row \<open>a\<^sub>j\<close>.
\<close>

theorem basis_column_values:
  assumes "valid_gpm P" and "c < length (good_cycles pick P)"
    and "j < length (good_cycles pick P ! c)"
  shows "let cyc = good_cycles pick P ! c; k = length cyc;
             Q = get_equivariant_basis pick P;
             x = (\<lambda>i. Q ! (cyc ! i) ! c); s = (\<lambda>i. row_sign P (cyc ! i))
         in x j = (\<Prod>i = j..<k - 1. s i) \<and> x (k - 1) = 1 \<and>
            x ((j + 1) mod k) = s j * x j \<and>
            nonzero_col P (cyc ! j) = cyc ! ((j + 1) mod k)"
proof -
  let ?gs = "filter (good P) (cycles_of pick P)"
  define cyc where "cyc = good_cycles pick P ! c"
  define Q where "Q = get_equivariant_basis pick P"
  have ge: "good_cycles pick P = ?gs" by (rule good_cycles_eq[OF assms(1)])
  have c: "c < length ?gs" using assms(2) ge by simp
  have cg: "cyc = ?gs ! c" by (simp add: cyc_def ge)
  have j: "j < length cyc" using assms(3) by (simp add: cyc_def)
  have "cyc \<in> set ?gs" unfolding cg using c by (rule nth_mem)
  then have mem: "cyc \<in> set (cycles_of pick P)" and g: "good P cyc" by auto
  note cf = cycles_facts[OF assms(1) mem]
  have lt: "cyc ! i < length P" if "i < length cyc" for i
    using cf(2) that by (auto simp: subset_eq)
  have sg: "sgn_of P (cyc ! i) = row_sign P (cyc ! i)" if "i < length cyc" for i
    using gpm_nonzero_col(2)[OF assms(1) lt[OF that]] by simp
  have x: "Q ! (cyc ! i) ! c = column P cyc ! (cyc ! i)" if "i < length cyc" for i
    unfolding Q_def cg by (rule basis_shape(3)[OF assms(1) lt[OF that, unfolded cg] c])
  have val: "Q ! (cyc ! i) ! c = (\<Prod>t = i..<length cyc - 1. row_sign P (cyc ! t))"
    if "i < length cyc" for i
  proof -
    have "Q ! (cyc ! i) ! c = (\<Prod>t = i..<length cyc - 1. map (sgn_of P) cyc ! t)"
      using x[OF that] column_in[OF cf(3,2) that] prod_list_drop_butlast[of i "map (sgn_of P) cyc"]
      by simp
    also have "\<dots> = (\<Prod>t = i..<length cyc - 1. row_sign P (cyc ! t))"
      by (rule prod.cong) (use sg in auto)
    finally show ?thesis .
  qed
  have k1: "length cyc - 1 < length cyc" using j by linarith
  have pos: "0 < length cyc" using j by linarith
  have m: "(j + 1) mod length cyc < length cyc" using pos by simp
  have last: "Q ! (cyc ! (length cyc - 1)) ! c = 1" using val[OF k1] by simp
  have st: "perm_of P (cyc ! j) = cyc ! ((j + 1) mod length cyc)"
    using is_cycle_step[OF cf(1) j] by (simp add: perm_of_def)
  have "sgn_of P (cyc ! j) * column P cyc ! perm_of P (cyc ! j) = column P cyc ! (cyc ! j)"
    by (rule column_fixed[OF assms(1) cf(1,2) g lt[OF j]])
  then have "row_sign P (cyc ! j) * Q ! (cyc ! ((j + 1) mod length cyc)) ! c = Q ! (cyc ! j) ! c"
    using x[OF j] x[OF m] st sg[OF j] by simp
  then have "row_sign P (cyc ! j) * Q ! (cyc ! j) ! c
      = (row_sign P (cyc ! j) * row_sign P (cyc ! j)) * Q ! (cyc ! ((j + 1) mod length cyc)) ! c"
    by (simp add: mult.assoc)
  also have "row_sign P (cyc ! j) * row_sign P (cyc ! j) = 1"
    using sgn_sq[OF assms(1) lt[OF j]] sg[OF j] by simp
  finally have rec: "Q ! (cyc ! ((j + 1) mod length cyc)) ! c = row_sign P (cyc ! j) * Q ! (cyc ! j) ! c"
    by simp
  have nz: "nonzero_col P (cyc ! j) = cyc ! ((j + 1) mod length cyc)"
    using gpm_nonzero_col(1)[OF assms(1) lt[OF j]] st by simp
  from val[OF j] last rec nz show ?thesis
    unfolding Let_def cyc_def[symmetric] Q_def[symmetric] by (intro conjI)
qed

text \<open>
  Claim C10. For a valid generalized permutation matrix every entry of the basis is \<open>-1\<close>,
  \<open>0\<close> or \<open>1\<close>; the column contributed by an orbit is zero at every index outside the
  orbit, and its entry at the last index visited is \<open>1\<close>.
\<close>

theorem basis_entries:
  assumes "valid_gpm P"
  shows "(\<forall>r \<in> set (get_equivariant_basis pick P). \<forall>x \<in> set r. x = -1 \<or> x = 0 \<or> x = 1) \<and>
         (\<forall>c < length (good_cycles pick P). \<forall>i < length P.
             i \<notin> set (good_cycles pick P ! c) \<longrightarrow> get_equivariant_basis pick P ! i ! c = 0) \<and>
         (\<forall>c < length (good_cycles pick P).
             get_equivariant_basis pick P ! last (good_cycles pick P ! c) ! c = 1)"
proof -
  let ?gs = "filter (good P) (cycles_of pick P)" and ?Q = "get_equivariant_basis pick P"
  have ge: "good_cycles pick P = ?gs" by (rule good_cycles_eq[OF assms(1)])
  have mem: "?gs ! c \<in> set (cycles_of pick P)" if "c < length ?gs" for c
    using nth_mem[OF that] by auto
  have a: "\<forall>r \<in> set ?Q. \<forall>x \<in> set r. x = -1 \<or> x = 0 \<or> x = 1"
  proof (intro ballI)
    fix r x assume "r \<in> set ?Q" "x \<in> set r"
    then obtain i c where i: "i < length ?Q" "r = ?Q ! i" and c: "c < length r" "x = r ! c"
      by (auto simp: in_set_conv_nth)
    have i': "i < length P" using i(1) by (simp add: basis_shape(1)[OF assms])
    have c': "c < length ?gs" using c(1) i(2) by (simp add: basis_shape(2)[OF assms i'])
    note cf = cycles_facts[OF assms mem[OF c']]
    from column_range[OF assms cf(3,2) i'] basis_shape(3)[OF assms i' c'] i(2) c(2)
    show "x = -1 \<or> x = 0 \<or> x = 1" by simp
  qed
  have b: "\<forall>c < length (good_cycles pick P). \<forall>i < length P.
             i \<notin> set (good_cycles pick P ! c) \<longrightarrow> ?Q ! i ! c = 0"
    unfolding ge using basis_shape(3)[OF assms] column_out by simp
  have c: "\<forall>c < length (good_cycles pick P). ?Q ! last (good_cycles pick P ! c) ! c = 1"
    unfolding ge
  proof (intro allI impI)
    fix c assume c: "c < length ?gs"
    note cf = cycles_facts[OF assms mem[OF c]]
    have "last (?gs ! c) \<in> set (?gs ! c)" using cf(4) by simp
    then have l: "last (?gs ! c) < length P" using cf(2) by auto
    show "?Q ! last (?gs ! c) ! c = 1"
      using basis_shape(3)[OF assms l c] column_last[OF cf(3,2,4)] by simp
  qed
  from a b c show ?thesis by (intro conjI)
qed

theorem basis_column_values_witness:
  "valid_gpm [[0, -1, 0, 0], [0, 0, 1, 0], [-1, 0, 0, 0], [0, 0, 0, 1]] \<and>
   good_cycles (\<lambda>S. 0) [[0, -1, 0, 0], [0, 0, 1, 0], [-1, 0, 0, 0], [0, 0, 0, 1]]
     = [[0, 1, 2], [3]] \<and>
   get_equivariant_basis (\<lambda>S. 0) [[0, -1, 0, 0], [0, 0, 1, 0], [-1, 0, 0, 0], [0, 0, 0, 1]]
     = [[-1, 0], [1, 0], [1, 0], [0, 1]] \<and>
   (let cyc = good_cycles (\<lambda>S. 0) [[0, -1, 0, 0], [0, 0, 1, 0], [-1, 0, 0, 0], [0, 0, 0, 1]] ! 0;
        k = length cyc;
        Q = get_equivariant_basis (\<lambda>S. 0) [[0, -1, 0, 0], [0, 0, 1, 0], [-1, 0, 0, 0], [0, 0, 0, 1]];
        x = (\<lambda>i. Q ! (cyc ! i) ! 0);
        s = (\<lambda>i. row_sign [[0, -1, 0, 0], [0, 0, 1, 0], [-1, 0, 0, 0], [0, 0, 0, 1]] (cyc ! i))
    in x 0 = (\<Prod>i = 0..<k - 1. s i) \<and> x (k - 1) = 1 \<and>
       x ((0 + 1) mod k) = s 0 * x 0 \<and>
       nonzero_col [[0, -1, 0, 0], [0, 0, 1, 0], [-1, 0, 0, 0], [0, 0, 0, 1]] (cyc ! 0)
         = cyc ! ((0 + 1) mod k))"
proof -
  let ?P = "[[0, -1, 0, 0], [0, 0, 1, 0], [-1, 0, 0, 0], [0, 0, 0, 1]] :: matrix"
  have v: "valid_gpm ?P" by (simp add: valid_gpm_def)
  have g: "good_cycles (\<lambda>S. 0) ?P = [[0, 1, 2], [3]]" by code_simp
  have q: "get_equivariant_basis (\<lambda>S. 0) ?P = [[-1, 0], [1, 0], [1, 0], [0, 1]]" by code_simp
  have a: "0 < length (good_cycles (\<lambda>S. 0) ?P)" unfolding g by simp
  have b: "0 < length (good_cycles (\<lambda>S. 0) ?P ! 0)" unfolding g by simp
  from basis_column_values[OF v a b] v g q show ?thesis by (intro conjI)
qed

theorem basis_entries_witness:
  "valid_gpm [[0, -1, 0, 0], [0, 0, 1, 0], [-1, 0, 0, 0], [0, 0, 0, 1]] \<and>
   good_cycles (\<lambda>S. 0) [[0, -1, 0, 0], [0, 0, 1, 0], [-1, 0, 0, 0], [0, 0, 0, 1]]
     = [[0, 1, 2], [3]] \<and>
   get_equivariant_basis (\<lambda>S. 0) [[0, -1, 0, 0], [0, 0, 1, 0], [-1, 0, 0, 0], [0, 0, 0, 1]] ! 2 ! 0 = 1 \<and>
   get_equivariant_basis (\<lambda>S. 0) [[0, -1, 0, 0], [0, 0, 1, 0], [-1, 0, 0, 0], [0, 0, 0, 1]] ! 3 ! 0 = 0"
proof -
  let ?P = "[[0, -1, 0, 0], [0, 0, 1, 0], [-1, 0, 0, 0], [0, 0, 0, 1]] :: matrix"
  have v: "valid_gpm ?P" by (simp add: valid_gpm_def)
  have g: "good_cycles (\<lambda>S. 0) ?P = [[0, 1, 2], [3]]" by code_simp
  note t = basis_entries[OF v, of "\<lambda>S. 0", unfolded g]
  note t2 = conjunct1[OF conjunct2[OF t], rule_format, of 0 3]
  note t3 = conjunct2[OF conjunct2[OF t], rule_format, of 0]
  from t3 have "get_equivariant_basis (\<lambda>S. 0) ?P ! 2 ! 0 = 1" by simp
  moreover from t2 have "get_equivariant_basis (\<lambda>S. 0) ?P ! 3 ! 0 = 0" by simp
  ultimately show ?thesis using v g by simp
qed

section \<open>Matrices given by a map on the indices and a sign per row\<close>

lemma ncols_square: "square n A \<Longrightarrow> ncols A = n"
  by (cases A) (auto simp: square_def ncols_def)

lemma square_gmat [simp]: "square n (gmat n f s)"
  by (auto simp: square_def gmat_def)

lemma length_gmat [simp]: "length (gmat n f s) = n"
  by (simp add: gmat_def)

lemma ncols_gmat [simp]: "ncols (gmat n f s) = n"
  by (rule ncols_square) simp

lemma gmat_nth: "i < n \<Longrightarrow> j < n \<Longrightarrow> gmat n f s ! i ! j = (if j = f i then s i else 0)"
  by (simp add: gmat_def)

lemma gmat_cong: "(\<And>i. i < n \<Longrightarrow> f i = g i \<and> s i = t i) \<Longrightarrow> gmat n f s = gmat n g t"
  by (simp add: gmat_def)

lemma eye_gmat: "eye n = gmat n (\<lambda>i. i) (\<lambda>i. 1)"
  by (auto simp: eye_def gmat_def)

lemma diagonal_gmat: "diagonal (gmat n f s) = map (\<lambda>i. if i = f i then s i else 0) [0..<n]"
  by (simp add: diagonal_def gmat_nth)

lemma trace_gmat: "trace (gmat n f s) = (\<Sum>i<n. if i = f i then s i else 0)"
  by (simp add: trace_def diagonal_gmat interv_sum_list_conv_sum_set_nat atLeast0LessThan)

lemma matmul_gmat:
  assumes "\<And>i. i < n \<Longrightarrow> f i < n"
  shows "matmul (gmat n f s) (gmat n g t) = Inr (gmat n (\<lambda>i. g (f i)) (\<lambda>i. s i * t (f i)))"
proof -
  have "map (\<lambda>r. map (\<lambda>j. \<Sum>k\<leftarrow>[0..<n]. r ! k * gmat n g t ! k ! j) [0..<n]) (gmat n f s)
      = gmat n (\<lambda>i. g (f i)) (\<lambda>i. s i * t (f i))"
  proof (rule nth_equalityI)
    show "length (map (\<lambda>r. map (\<lambda>j. \<Sum>k\<leftarrow>[0..<n]. r ! k * gmat n g t ! k ! j) [0..<n]) (gmat n f s))
        = length (gmat n (\<lambda>i. g (f i)) (\<lambda>i. s i * t (f i)))" by simp
  next
    fix i assume "i < length (map (\<lambda>r. map (\<lambda>j. \<Sum>k\<leftarrow>[0..<n]. r ! k * gmat n g t ! k ! j) [0..<n]) (gmat n f s))"
    then have i: "i < n" by simp
    have "map (\<lambda>j. \<Sum>k\<leftarrow>[0..<n]. gmat n f s ! i ! k * gmat n g t ! k ! j) [0..<n]
        = gmat n (\<lambda>i. g (f i)) (\<lambda>i. s i * t (f i)) ! i"
    proof (rule nth_equalityI)
      show "length (map (\<lambda>j. \<Sum>k\<leftarrow>[0..<n]. gmat n f s ! i ! k * gmat n g t ! k ! j) [0..<n])
          = length (gmat n (\<lambda>i. g (f i)) (\<lambda>i. s i * t (f i)) ! i)"
        using i by (simp add: gmat_def)
    next
      fix j assume "j < length (map (\<lambda>j. \<Sum>k\<leftarrow>[0..<n]. gmat n f s ! i ! k * gmat n g t ! k ! j) [0..<n])"
      then have j: "j < n" by simp
      have "(\<Sum>k\<leftarrow>[0..<n]. gmat n f s ! i ! k * gmat n g t ! k ! j)
          = gmat n f s ! i ! f i * gmat n g t ! f i ! j"
        by (rule sum_list_single[OF assms[OF i]]) (simp add: gmat_nth i)
      also have "\<dots> = (if j = g (f i) then s i * t (f i) else 0)"
        using i j assms[OF i] by (simp add: gmat_nth)
      finally show "map (\<lambda>j. \<Sum>k\<leftarrow>[0..<n]. gmat n f s ! i ! k * gmat n g t ! k ! j) [0..<n] ! j
          = gmat n (\<lambda>i. g (f i)) (\<lambda>i. s i * t (f i)) ! i ! j"
        using i j by (simp add: gmat_nth)
    qed
    then show "map (\<lambda>r. map (\<lambda>j. \<Sum>k\<leftarrow>[0..<n]. r ! k * gmat n g t ! k ! j) [0..<n]) (gmat n f s) ! i
        = gmat n (\<lambda>i. g (f i)) (\<lambda>i. s i * t (f i)) ! i"
      using i by simp
  qed
  then show ?thesis by (simp add: matmul_def)
qed

lemma col_norm_sq_nth:
  "col_norm_sq A j = (\<Sum>i\<leftarrow>[0..<length A]. A ! i ! j * (A ! i ! j))"
proof -
  have "(\<Sum>r\<leftarrow>A. r ! j * (r ! j)) = (\<Sum>r\<leftarrow>map ((!) A) [0..<length A]. r ! j * (r ! j))"
    by (simp only: map_nth)
  also have "\<dots> = (\<Sum>i\<leftarrow>[0..<length A]. A ! i ! j * (A ! i ! j))"
    by (simp add: comp_def)
  finally show ?thesis by (simp add: col_norm_sq_def)
qed

lemma unit_columns_gmat:
  assumes bij: "bij_betw f {..<n} {..<n}" and sq: "\<And>i. i < n \<Longrightarrow> s i * s i = 1"
  shows "unit_columns (gmat n f s)"
proof -
  have "col_norm_sq (gmat n f s) j = 1" if j: "j < n" for j
  proof -
    from bij j obtain k where k: "k < n" "f k = j"
      by (metis bij_betw_iff_bijections lessThan_iff)
    have inj: "inj_on f {..<n}" using bij by (simp add: bij_betw_def)
    have "col_norm_sq (gmat n f s) j = (\<Sum>i\<leftarrow>[0..<n]. (gmat n f s ! i ! j) * (gmat n f s ! i ! j))"
      using col_norm_sq_nth[of "gmat n f s" j] by simp
    also have "\<dots> = gmat n f s ! k ! j * gmat n f s ! k ! j"
    proof (rule sum_list_single[OF k(1)])
      fix i assume "i < n" "i \<noteq> k"
      with inj k have "f i \<noteq> j" by (auto simp: inj_on_def)
      with \<open>i < n\<close> j show "gmat n f s ! i ! j * gmat n f s ! i ! j = 0" by (simp add: gmat_nth)
    qed
    also have "\<dots> = 1" using k j sq[OF k(1)] by (simp add: gmat_nth)
    finally show ?thesis .
  qed
  then show ?thesis by (simp add: unit_columns_def list_all_iff)
qed

lemma isclose_zero [simp]: "isclose x 0 \<longleftrightarrow> x = 0"
  by (auto simp: isclose_def)

lemma isclose_one [simp]: "isclose x 1 \<longleftrightarrow> x = 1"
proof (cases "x = 1")
  case True
  then show ?thesis by (simp add: isclose_def)
next
  case False
  then have "1 \<le> \<bar>x - 1\<bar>" by linarith
  moreover have "\<not> 100000000 * y \<le> 1001" if "1 \<le> y" for y :: int
    using that by simp
  ultimately have "\<not> 100000000 * \<bar>x - 1\<bar> \<le> 1001" by blast
  with False show ?thesis by (simp add: isclose_def)
qed

lemma isclose_refl [simp]: "isclose x x"
  by (simp add: isclose_def)

lemma allclose_eye:
  assumes "square n A"
  shows "allclose A (eye n) = Inr (A = eye n)"
proof -
  have len: "length A = n" and nc: "ncols A = n"
    using assms ncols_square[OF assms] by (simp_all add: square_def)
  have rows: "\<And>i. i < n \<Longrightarrow> length (A ! i) = n" using assms by (simp add: square_def)
  have bA: "bcast A i j = A ! i ! j" if "i < n" "j < n" for i j
    using that len nc by (auto simp: bcast_def)
  have bI: "bcast (eye n) i j = eye n ! i ! j" if "i < n" "j < n" for i j
    using that by (auto simp: bcast_def eye_gmat)
  have cl: "isclose (A ! i ! j) (eye n ! i ! j) \<longleftrightarrow> A ! i ! j = eye n ! i ! j" if "i < n" "j < n" for i j
    using that by (simp add: eye_def)
  have "list_all (\<lambda>i. list_all (\<lambda>j. isclose (bcast A i j) (bcast (eye n) i j)) [0..<n]) [0..<n]
      \<longleftrightarrow> (\<forall>i<n. \<forall>j<n. A ! i ! j = eye n ! i ! j)"
    using bA bI cl by (auto simp: list_all_iff)
  also have "\<dots> \<longleftrightarrow> A = eye n"
  proof
    assume a: "\<forall>i<n. \<forall>j<n. A ! i ! j = eye n ! i ! j"
    show "A = eye n"
    proof (rule nth_equalityI)
      show "length A = length (eye n)" using len by (simp add: eye_def)
    next
      fix i assume "i < length A"
      then have i: "i < n" using len by simp
      show "A ! i = eye n ! i"
        by (rule nth_equalityI) (use a i rows[OF i] in \<open>simp_all add: eye_def\<close>)
    qed
  next
    assume "A = eye n"
    then show "\<forall>i<n. \<forall>j<n. A ! i ! j = eye n ! i ! j" by simp
  qed
  finally show ?thesis using len nc
    by (simp add: allclose_def compatible_def bdim_def eye_gmat)
qed

lemma gmat_eq_eye:
  assumes "\<And>i. i < n \<Longrightarrow> f i < n" "\<And>i. i < n \<Longrightarrow> s i \<noteq> 0"
  shows "gmat n f s = eye n \<longleftrightarrow> (\<forall>i<n. f i = i \<and> s i = 1)"
proof
  assume e: "gmat n f s = eye n"
  show "\<forall>i<n. f i = i \<and> s i = 1"
  proof (intro allI impI)
    fix i assume i: "i < n"
    have "gmat n f s ! i ! f i = eye n ! i ! f i" using e by simp
    then have "s i = (if i = f i then 1 else 0)"
      using i assms(1)[OF i] by (simp add: gmat_nth eye_def)
    with assms(2)[OF i] show "f i = i \<and> s i = 1" by (auto split: if_splits)
  qed
next
  assume "\<forall>i<n. f i = i \<and> s i = 1"
  then show "gmat n f s = eye n" unfolding eye_gmat by (intro gmat_cong) simp
qed

lemma todense_rows:
  assumes "shape M = (n, n)" "row M = [0..<n]" "length (col M) = n" "length (data M) = n"
  shows "todense M = gmat n ((!) (col M)) ((!) (data M))"
proof -
  have "coo_entry M i j = (if j = col M ! i then data M ! i else 0)" if i: "i < n" for i j
  proof -
    have "coo_entry M i j
        = (\<Sum>k\<leftarrow>[0..<n]. if [0..<n] ! k = i \<and> col M ! k = j then data M ! k else 0)"
      by (simp add: coo_entry_def assms)
    also have "\<dots> = (if [0..<n] ! i = i \<and> col M ! i = j then data M ! i else 0)"
      by (rule sum_list_single[OF i]) simp
    finally show ?thesis using i by auto
  qed
  then show ?thesis by (simp add: todense_def assms(1) gmat_def)
qed

lemma length_remdups_distinct: "length (remdups xs) = length xs \<longleftrightarrow> distinct xs"
  by (simp add: length_remdups_eq remdups_id_iff_distinct)

lemma oneline2matrix_cases:
  "oneline2matrix p sg =
     (if \<not> distinct p then Inl (AssertionError ''np.unique(oneline_notation, return_counts=True)'')
      else if length (signs_or_ones (length p) sg) \<noteq> length p
      then Inl (AssertionError ''len(reflexions) != d'')
      else if \<exists>v \<in> set p. int (length p) \<le> \<bar>v\<bar>
      then Inl (ValueError ''column index exceeds matrix dimensions'')
      else Inr (Sparse \<lparr>shape = (length p, length p), row = [0..<length p],
                        col = map (\<lambda>v. nat \<bar>v\<bar>) p,
                        data = map int8 (signs_or_ones (length p) sg)\<rparr>))"
proof -
  have "length p \<le> nat \<bar>v\<bar> \<longleftrightarrow> int (length p) \<le> \<bar>v\<bar>" for v :: int
    by linarith
  then have "(\<exists>c \<in> set (map (\<lambda>v. nat \<bar>v\<bar>) p). length p \<le> c) \<longleftrightarrow> (\<exists>v \<in> set p. int (length p) \<le> \<bar>v\<bar>)"
    by simp
  then show ?thesis
    unfolding oneline2matrix_def Let_def signs_or_ones_def[symmetric]
    using length_remdups_distinct[of p] by (auto simp: eq_commute[of "length p"])
qed

lemma oneline2matrix_gmat:
  assumes "distinct p" "length (signs_or_ones (length p) sg) = length p"
    and "\<forall>v \<in> set p. \<bar>v\<bar> < int (length p)"
  shows "\<exists>M. oneline2matrix p sg = Inr (Sparse M) \<and>
           todense M = gmat (length p) (\<lambda>i. nat \<bar>p ! i\<bar>) (\<lambda>i. int8 (signs_or_ones (length p) sg ! i))"
proof -
  let ?M = "\<lparr>shape = (length p, length p), row = [0..<length p],
              col = map (\<lambda>v. nat \<bar>v\<bar>) p,
              data = map int8 (signs_or_ones (length p) sg)\<rparr>"
  have "\<not> (\<exists>v \<in> set p. int (length p) \<le> \<bar>v\<bar>)" using assms(3) by auto
  then have "oneline2matrix p sg = Inr (Sparse ?M)"
    using assms(1,2) by (simp add: oneline2matrix_cases)
  moreover have "todense ?M = gmat (length p) ((!) (col ?M)) ((!) (data ?M))"
    by (rule todense_rows) (simp_all add: assms(2))
  then have "todense ?M = gmat (length p) (\<lambda>i. nat \<bar>p ! i\<bar>)
      (\<lambda>i. int8 (signs_or_ones (length p) sg ! i))"
    using assms(2) by (simp add: gmat_def)
  ultimately show ?thesis by blast
qed

subsection \<open>The invariant dimensions\<close>

lemma diagonal_square: "square n A \<Longrightarrow> diagonal A = map (\<lambda>i. A ! i ! i) [0..<n]"
  by (simp add: diagonal_def ncols_square) (simp add: square_def)

lemma tiled_inv_dims_square:
  assumes ne: "gens \<noteq> []" and sq: "\<forall>h \<in> set gens. square n (entries h)"
  shows "tiled_inv_dims gens = map (invariant_dimension gens) [0..<n]"
proof -
  let ?diags = "map (\<lambda>h. diagonal (entries h)) gens"
  let ?rows = "map (map (\<lambda>v. v = 1)) (concat (replicate 4 ?diags))"
  obtain g gs where g: "gens = g # gs" using ne by (cases gens) auto
  have r4: "replicate 4 ?diags = ?diags # replicate 3 ?diags" by (simp add: numeral_Bit0 numeral_3_eq_3)
  have hd: "?rows = map (\<lambda>v. v = 1) (diagonal (entries g)) #
      map (map (\<lambda>v. v = 1)) (map (\<lambda>h. diagonal (entries h)) gs @ concat (replicate 3 ?diags))"
    unfolding r4 by (simp add: g)
  have "square n (entries g)" using sq g by simp
  then have lg: "length (diagonal (entries g)) = n" by (simp add: diagonal_square)
  have setrows: "set ?rows = (\<lambda>h. map (\<lambda>v. v = 1) (diagonal (entries h))) ` set gens"
    unfolding r4 by auto
  have "list_all (\<lambda>r. r ! i) ?rows \<longleftrightarrow> invariant_dimension gens i" if i: "i < n" for i
  proof -
    have "list_all (\<lambda>r. r ! i) ?rows \<longleftrightarrow> (\<forall>h \<in> set gens. map (\<lambda>v. v = 1) (diagonal (entries h)) ! i)"
      unfolding list_all_iff setrows by simp
    also have "\<dots> \<longleftrightarrow> (\<forall>h \<in> set gens. entries h ! i ! i = 1)"
    proof (rule ball_cong[OF refl])
      fix h assume "h \<in> set gens"
      with sq have "diagonal (entries h) = map (\<lambda>i. entries h ! i ! i) [0..<n]"
        by (simp add: diagonal_square)
      with i show "map (\<lambda>v. v = 1) (diagonal (entries h)) ! i \<longleftrightarrow> entries h ! i ! i = 1"
        by simp
    qed
    finally show ?thesis by (simp add: invariant_dimension_def)
  qed
  moreover have "(case ?rows of [] \<Rightarrow> 0 | r # _ \<Rightarrow> length r) = n"
    unfolding hd using lg by simp
  ultimately show ?thesis
    unfolding tiled_inv_dims_def Let_def all_axis0_def by simp
qed

lemma Sym_init_Inr:
  assumes "Sym_init gens = Inr G"
  shows "gens \<noteq> []" and "\<forall>h \<in> set gens. unit_columns (entries h)"
    and "d G = length (entries (gens ! 0))" and "discrete_generators G = gens"
    and "inv_dims G = tiled_inv_dims gens"
    and "n_inv_dims G = length (filter (\<lambda>b. b) (tiled_inv_dims gens))"
  using assms by (auto simp: Sym_init_def Let_def split: if_splits)

section \<open>Claims on the generator set and on \<open>oneline2matrix\<close>\<close>

text \<open>
  Claim C9. For a generator list accepted by \<open>Sym.__init__\<close>, all generators square of size
  \<open>d\<close>, the flags computed from the list repeated four times are those of the untiled
  definition: dimension \<open>i\<close> is invariant iff the diagonal entry at \<open>i\<close> of every supplied
  generator is \<open>1\<close>, and \<open>n_inv_dims\<close> is the number of such dimensions.
\<close>

theorem tiled_invariance_untiled:
  assumes "Sym_init gens = Inr G" and "\<forall>h \<in> set gens. square (d G) (entries h)"
  shows "inv_dims G = map (invariant_dimension gens) [0..<d G] \<and>
         n_inv_dims G = card {i. i < d G \<and> invariant_dimension gens i}"
proof -
  note S = Sym_init_Inr[OF assms(1)]
  have t: "tiled_inv_dims gens = map (invariant_dimension gens) [0..<d G]"
    by (rule tiled_inv_dims_square[OF S(1) assms(2)])
  have "n_inv_dims G = length (filter (invariant_dimension gens) [0..<d G])"
    unfolding S(6) t by (simp add: filter_map comp_def)
  also have "\<dots> = card {i. i < d G \<and> invariant_dimension gens i}"
    by (simp add: length_filter_conv_card cong: conj_cong)
  finally show ?thesis using S(5) t by simp
qed

theorem tiled_invariance_untiled_witness:
  "Sym_init [Dense [[1, 0, 0], [0, 0, 1], [0, 1, 0]], Dense [[1, 0, 0], [0, -1, 0], [0, 0, 1]]]
     = Inr \<lparr>d = 3, is_orthogonal = True, is_permutation = False, is_sparse = False,
            discrete_generators =
              [Dense [[1, 0, 0], [0, 0, 1], [0, 1, 0]], Dense [[1, 0, 0], [0, -1, 0], [0, 0, 1]]],
            inv_dims = [True, False, False], n_inv_dims = 1\<rparr> \<and>
   map (invariant_dimension
          [Dense [[1, 0, 0], [0, 0, 1], [0, 1, 0]], Dense [[1, 0, 0], [0, -1, 0], [0, 0, 1]]])
       [0..<3] = [True, False, False] \<and>
   card {i. i < 3 \<and> invariant_dimension
          [Dense [[1, 0, 0], [0, 0, 1], [0, 1, 0]], Dense [[1, 0, 0], [0, -1, 0], [0, 0, 1]]] i} = 1"
proof -
  let ?gens = "[Dense [[1, 0, 0], [0, 0, 1], [0, 1, 0]], Dense [[1, 0, 0], [0, -1, 0], [0, 0, 1]]]"
  let ?G = "\<lparr>d = 3, is_orthogonal = True, is_permutation = False, is_sparse = False,
            discrete_generators = ?gens, inv_dims = [True, False, False], n_inv_dims = 1\<rparr>"
  have s: "Sym_init ?gens = Inr ?G" by code_simp
  have sq: "\<forall>h \<in> set ?gens. square (d ?G) (entries h)" by (simp add: square_def)
  from tiled_invariance_untiled[OF s sq] s show ?thesis by simp
qed

text \<open>
  Claim C8, as amended. \<open>oneline2matrix\<close> fails with an assertion error whenever the
  notation holds a duplicate value, and when the signs (all \<open>+1\<close> when omitted or empty)
  have another length than \<open>d\<close>; the sparse constructor refuses an absolute value of \<open>d\<close>
  or more. A notation whose absolute values are distinct and below \<open>d\<close> (a permutation of
  \<open>{0..d-1}\<close> up to the signs of its entries) returns the sparse \<open>d\<close> by \<open>d\<close> matrix whose
  entry at \<open>(i, |notation[i]|)\<close> is \<open>signs[i]\<close>, cast to \<open>int8\<close>, and whose other entries
  are zero.
\<close>

theorem oneline2matrix_contract:
  "(\<not> distinct p \<longrightarrow>
      oneline2matrix p sg = Inl (AssertionError ''np.unique(oneline_notation, return_counts=True)'')) \<and>
   (distinct p \<and> length (signs_or_ones (length p) sg) \<noteq> length p \<longrightarrow>
      oneline2matrix p sg = Inl (AssertionError ''len(reflexions) != d'')) \<and>
   (distinct p \<and> length (signs_or_ones (length p) sg) = length p \<and>
    (\<exists>v \<in> set p. int (length p) \<le> \<bar>v\<bar>) \<longrightarrow>
      oneline2matrix p sg = Inl (ValueError ''column index exceeds matrix dimensions'')) \<and>
   (distinct (map abs p) \<and> length (signs_or_ones (length p) sg) = length p \<and>
    (\<forall>v \<in> set p. \<bar>v\<bar> < int (length p)) \<longrightarrow>
      (\<exists>M. oneline2matrix p sg = Inr (Sparse M) \<and>
         todense M = map (\<lambda>i. map (\<lambda>j. if int j = \<bar>p ! i\<bar>
                                         then int8 (signs_or_ones (length p) sg ! i) else 0)
                                  [0..<length p]) [0..<length p])) \<and>
   signs_or_ones (length p) None = replicate (length p) 1 \<and>
   signs_or_ones (length p) (Some []) = replicate (length p) 1"
proof -
  have a: "\<exists>M. oneline2matrix p sg = Inr (Sparse M) \<and>
         todense M = map (\<lambda>i. map (\<lambda>j. if int j = \<bar>p ! i\<bar>
                                         then int8 (signs_or_ones (length p) sg ! i) else 0)
                                  [0..<length p]) [0..<length p]"
    if h: "distinct (map abs p) \<and> length (signs_or_ones (length p) sg) = length p \<and>
      (\<forall>v \<in> set p. \<bar>v\<bar> < int (length p))"
  proof -
    from h have dp: "distinct p" by (simp add: distinct_map)
    from h have l: "length (signs_or_ones (length p) sg) = length p"
      and r: "\<forall>v \<in> set p. \<bar>v\<bar> < int (length p)" by simp_all
    from oneline2matrix_gmat[OF dp l r] obtain M where M: "oneline2matrix p sg = Inr (Sparse M)"
      "todense M = gmat (length p) (\<lambda>i. nat \<bar>p ! i\<bar>) (\<lambda>i. int8 (signs_or_ones (length p) sg ! i))"
      by blast
    have "(j = nat \<bar>v\<bar>) = (int j = \<bar>v\<bar>)" for j and v :: int by linarith
    then have "gmat (length p) (\<lambda>i. nat \<bar>p ! i\<bar>) (\<lambda>i. int8 (signs_or_ones (length p) sg ! i))
        = map (\<lambda>i. map (\<lambda>j. if int j = \<bar>p ! i\<bar>
                                         then int8 (signs_or_ones (length p) sg ! i) else 0)
                                  [0..<length p]) [0..<length p]"
      by (simp add: gmat_def)
    with M show ?thesis by auto
  qed
  have b: "\<not> distinct p \<longrightarrow>
      oneline2matrix p sg = Inl (AssertionError ''np.unique(oneline_notation, return_counts=True)'')"
    by (simp add: oneline2matrix_cases)
  have c: "distinct p \<and> length (signs_or_ones (length p) sg) \<noteq> length p \<longrightarrow>
      oneline2matrix p sg = Inl (AssertionError ''len(reflexions) != d'')"
    by (simp add: oneline2matrix_cases)
  have e: "distinct p \<and> length (signs_or_ones (length p) sg) = length p \<and>
    (\<exists>v \<in> set p. int (length p) \<le> \<bar>v\<bar>) \<longrightarrow>
      oneline2matrix p sg = Inl (ValueError ''column index exceeds matrix dimensions'')"
    by (simp add: oneline2matrix_cases)
  have f: "signs_or_ones (length p) None = replicate (length p) 1"
    "signs_or_ones (length p) (Some []) = replicate (length p) 1"
    by (simp_all add: signs_or_ones_def)
  have a': "distinct (map abs p) \<and> length (signs_or_ones (length p) sg) = length p \<and>
      (\<forall>v \<in> set p. \<bar>v\<bar> < int (length p)) \<longrightarrow>
      (\<exists>M. oneline2matrix p sg = Inr (Sparse M) \<and>
         todense M = map (\<lambda>i. map (\<lambda>j. if int j = \<bar>p ! i\<bar>
                                         then int8 (signs_or_ones (length p) sg ! i) else 0)
                                  [0..<length p]) [0..<length p])"
    using a by (rule impI)
  from b c e a' f show ?thesis by (intro conjI)
qed

theorem oneline2matrix_contract_witness:
  "oneline2matrix [0, 0, 1] None
     = Inl (AssertionError ''np.unique(oneline_notation, return_counts=True)'') \<and>
   (\<exists>M. oneline2matrix [1, 0, 2] (Some [1, -1, 1]) = Inr (Sparse M) \<and>
        todense M = [[0, 1, 0], [-1, 0, 0], [0, 0, 1]])"
proof -
  have a: "\<not> distinct [0, 0, 1 :: int]" by simp
  have b: "distinct (map abs [1, 0, 2 :: int]) \<and>
      length (signs_or_ones (length [1, 0, 2 :: int]) (Some [1, -1, 1])) = length [1, 0, 2 :: int] \<and>
      (\<forall>v \<in> set [1, 0, 2 :: int]. \<bar>v\<bar> < int (length [1, 0, 2 :: int]))"
    by (simp add: signs_or_ones_def)
  note t1 = oneline2matrix_contract[of "[0, 0, 1]" None, THEN conjunct1, rule_format, OF a]
  note t2 = oneline2matrix_contract[of "[1, 0, 2]" "Some [1, -1, 1]",
      THEN conjunct2, THEN conjunct2, THEN conjunct2, THEN conjunct1, rule_format, OF b]
  from t2 obtain M where M: "oneline2matrix [1, 0, 2] (Some [1, -1, 1]) = Inr (Sparse M)"
    "todense M = map (\<lambda>i. map (\<lambda>j. if int j = \<bar>[1, 0, 2] ! i\<bar>
        then int8 (signs_or_ones (length [1, 0, 2 :: int]) (Some [1, -1, 1]) ! i) else 0)
        [0..<length [1, 0, 2 :: int]]) [0..<length [1, 0, 2 :: int]]" by blast
  have "todense M = [[0, 1, 0], [-1, 0, 0], [0, 0, 1]]"
    unfolding M(2) by code_simp
  with M(1) t1 show ?thesis by blast
qed

text \<open>
  Claim C8 as stated fails: the notation \<open>[-1, 0]\<close> is not a permutation of \<open>{0, 1}\<close> (the
  value \<open>-1\<close> is out of range), yet no error is raised: the columns are the absolute values,
  and the matrix returned is the swap of two coordinates.
\<close>

theorem oneline2matrix_negative_entry:
  "oneline2matrix [-1, 0] None
     = Inr (Sparse \<lparr>shape = (2, 2), row = [0, 1], col = [1, 0], data = [1, 1]\<rparr>) \<and>
   todense \<lparr>shape = (2, 2), row = [0, 1], col = [1, 0], data = [1, 1]\<rparr> = [[0, 1], [1, 0]] \<and>
   set [-1, 0 :: int] \<noteq> {0, 1}"
  by code_simp

text \<open>
  The assertion compares the values, not their absolute values: \<open>[1, -1]\<close> passes it as well,
  and the matrix returned has two entries in column \<open>1\<close>.
\<close>

lemma oneline2matrix_colliding_columns:
  "oneline2matrix [1, -1] None
     = Inr (Sparse \<lparr>shape = (2, 2), row = [0, 1], col = [1, 1], data = [1, 1]\<rparr>) \<and>
   todense \<lparr>shape = (2, 2), row = [0, 1], col = [1, 1], data = [1, 1]\<rparr> = [[0, 1], [0, 1]]"
  by code_simp

section \<open>Claims on \<open>Klein4.__init__\<close> and \<open>C2.__init__\<close>\<close>

text \<open>
  Claim C6 at the pair \<open>(I, b)\<close>, \<open>b\<close> the swap of two coordinates: \<open>Klein4.__init__\<close>
  accepts the pair, although \<open>a\<close> is the identity, and the four discrete actions are
  \<open>I, I, b, b\<close>. The assertion that the generators are not the identity is commented out in
  the source, while \<open>C2.__init__\<close> makes it.
\<close>

theorem Klein4_accepts_identity:
  "bind (Klein4_init [Dense [[1, 0], [0, 1]], Dense [[0, 1], [1, 0]]]) Klein4_discrete_actions
     = Inr [[[1, 0], [0, 1]], [[1, 0], [0, 1]], [[0, 1], [1, 0]], [[0, 1], [1, 0]]]"
  by code_simp

subsection \<open>\<open>C2.__init__\<close> on a signed permutation\<close>

lemma Sym_init_ok:
  assumes "gens \<noteq> []" "\<forall>h \<in> set gens. unit_columns (entries h)"
  shows "\<exists>G. Sym_init gens = Inr G \<and> d G = length (entries (gens ! 0)) \<and>
           discrete_generators G = gens \<and>
           n_inv_dims G = length (filter (\<lambda>b. b) (tiled_inv_dims gens))"
  using assms by (simp add: Sym_init_def Let_def)

lemma bind_Inr [simp]: "bind (Inr x) f = f x"
  by (simp add: bind_def)

lemma bind_Inl [simp]: "bind (Inl e) f = Inl e"
  by (simp add: bind_def)

lemma n_inv_dims_gmat:
  assumes "entries A = gmat n f s" "0 < n"
  shows "length (filter (\<lambda>b. b) (tiled_inv_dims [A])) = card {i. i < n \<and> i = f i \<and> s i = 1}"
proof -
  have sq: "\<forall>h \<in> set [A]. square n (entries h)" using assms(1) by simp
  have "tiled_inv_dims [A] = map (invariant_dimension [A]) [0..<n]"
    by (rule tiled_inv_dims_square[OF _ sq]) simp
  then have "length (filter (\<lambda>b. b) (tiled_inv_dims [A]))
      = length (filter (invariant_dimension [A]) [0..<n])"
    by (simp add: filter_map comp_def)
  also have "\<dots> = card {i. i < n \<and> invariant_dimension [A] i}"
    by (simp add: length_filter_conv_card cong: conj_cong)
  also have "{i. i < n \<and> invariant_dimension [A] i} = {i. i < n \<and> i = f i \<and> s i = 1}"
    by (auto simp: invariant_dimension_def assms(1) gmat_nth split: if_splits)
  finally show ?thesis .
qed

text \<open>
  The constructor on a generator with entries \<open>gmat n f s\<close>, \<open>f\<close> a bijection and signs
  \<open>+1\<close>, \<open>-1\<close>: the two trace tests decide.
\<close>

lemma C2_init_gmat:
  assumes e: "entries A = gmat n f s" and n: "0 < n"
    and bij: "bij_betw f {..<n} {..<n}" and sq: "\<And>i. i < n \<Longrightarrow> s i * s i = 1"
  shows "\<exists>G. Sym_init [A] = Inr G \<and> d G = n \<and> discrete_generators G = [A] \<and>
           n_inv_dims G = card {i. i < n \<and> i = f i \<and> s i = 1} \<and>
           C2_init A =
             (if isclose (trace (gmat n f s)) (int n)
              then Inl (AssertionError ''Generator must not be the identity'')
              else if \<not> isclose (trace (gmat n (\<lambda>i. f (f i)) (\<lambda>i. s i * s (f i)))) (int n)
              then Inl (AssertionError ''Generator is not cyclic h @ h != I'')
              else Inr G)"
proof -
  have uc: "\<forall>h \<in> set [A]. unit_columns (entries h)"
    using unit_columns_gmat[OF bij sq] e by simp
  from Sym_init_ok[OF _ uc] obtain G where G: "Sym_init [A] = Inr G"
    "d G = length (entries ([A] ! 0))" "discrete_generators G = [A]"
    "n_inv_dims G = length (filter (\<lambda>b. b) (tiled_inv_dims [A]))" by auto
  have dG: "d G = n" using G(2) e by simp
  have f: "\<And>i. i < n \<Longrightarrow> f i < n" using bij by (auto simp: bij_betw_def)
  have mm: "matmul (gmat n f s) (gmat n f s) = Inr (gmat n (\<lambda>i. f (f i)) (\<lambda>i. s i * s (f i)))"
    by (rule matmul_gmat[OF f])
  have "C2_init A =
             (if isclose (trace (gmat n f s)) (int n)
              then Inl (AssertionError ''Generator must not be the identity'')
              else if \<not> isclose (trace (gmat n (\<lambda>i. f (f i)) (\<lambda>i. s i * s (f i)))) (int n)
              then Inl (AssertionError ''Generator is not cyclic h @ h != I'')
              else Inr G)"
    by (simp add: C2_init_def G(1,3) dG e mm Let_def)
  with G(1,3) dG n_inv_dims_gmat[OF e n] G(4) show ?thesis by simp
qed

lemma int8_pm [simp]: "int8 1 = 1" "int8 (-1) = -1"
  by (simp_all add: int8_def)

subsection \<open>A reflection of one coordinate in dimension \<open>200000\<close>\<close>

lemma sum_reflection:
  assumes "0 < n"
  shows "(\<Sum>i<n. if i = 0 then (-1::int) else 1) = int n - 2"
proof -
  have "(\<Sum>i<n. if i = 0 then (-1::int) else 1) = (\<Sum>i<n. 1 + (if i = 0 then -2 else 0))"
    by (rule sum.cong) auto
  also have "\<dots> = (\<Sum>i<n. 1) + (\<Sum>i<n. if i = 0 then -2 else 0)"
    by (rule sum.distrib)
  also have "(\<Sum>i<n. if i = 0 then -2 else (0::int)) = -2"
    using assms by (simp add: sum.delta')
  finally show ?thesis by simp
qed

lemma reflection_rejected:
  assumes "200000 \<le> n"
  shows "\<exists>M. oneline2matrix (map int [0..<n]) (Some ((-1) # replicate (n - 1) 1)) = Inr (Sparse M) \<and>
           todense M \<noteq> eye n \<and>
           matmul (todense M) (todense M) = Inr (eye n) \<and>
           C2_init (Sparse M) = Inl (AssertionError ''Generator must not be the identity'')"
proof -
  let ?p = "map int [0..<n]" and ?r = "(-1) # replicate (n - 1) (1::int)"
  let ?s = "\<lambda>i. if i = 0 then (-1::int) else 1"
  have n: "0 < n" using assms by simp
  have so: "signs_or_ones (length ?p) (Some ?r) = ?r" by (simp add: signs_or_ones_def)
  have lr: "length (signs_or_ones (length ?p) (Some ?r)) = length ?p"
    unfolding so using n by simp
  have len: "length ?p = n" by simp
  have "distinct ?p" by (simp add: distinct_map)
  from oneline2matrix_gmat[OF this lr] obtain M where
    M: "oneline2matrix ?p (Some ?r) = Inr (Sparse M)"
    "todense M = gmat (length ?p) (\<lambda>i. nat \<bar>?p ! i\<bar>)
        (\<lambda>i. int8 (signs_or_ones (length ?p) (Some ?r) ! i))"
    by auto
  have "gmat (length ?p) (\<lambda>i. nat \<bar>?p ! i\<bar>) (\<lambda>i. int8 (signs_or_ones (length ?p) (Some ?r) ! i))
      = gmat n (\<lambda>i. i) ?s"
    unfolding len by (rule gmat_cong) (auto simp: nth_Cons' signs_or_ones_def)
  with M(2) have td: "todense M = gmat n (\<lambda>i. i) ?s" by simp
  have e: "entries (Sparse M) = gmat n (\<lambda>i. i) ?s" using td by simp
  have bij: "bij_betw (\<lambda>i. i) {..<n} {..<n}" by (simp add: bij_betw_def)
  have sq: "\<And>i. i < n \<Longrightarrow> ?s i * ?s i = 1" by simp
  from C2_init_gmat[OF e n bij sq] obtain G where
    C: "C2_init (Sparse M) =
             (if isclose (trace (gmat n (\<lambda>i. i) ?s)) (int n)
              then Inl (AssertionError ''Generator must not be the identity'')
              else if \<not> isclose (trace (gmat n (\<lambda>i. i) (\<lambda>i. ?s i * ?s i))) (int n)
              then Inl (AssertionError ''Generator is not cyclic h @ h != I'')
              else Inr G)"
    by blast
  have tr: "trace (gmat n (\<lambda>i. i) ?s) = int n - 2"
    using sum_reflection[OF n] by (simp add: trace_gmat)
  have "isclose (int n - 2) (int n)" using assms by (simp add: isclose_def)
  with C tr have rej: "C2_init (Sparse M) = Inl (AssertionError ''Generator must not be the identity'')"
    by simp
  have ne: "todense M \<noteq> eye n"
  proof
    assume "todense M = eye n"
    then have "gmat n (\<lambda>i. i) ?s ! 0 ! 0 = eye n ! 0 ! 0" using td by simp
    then show False using n by (simp add: gmat_nth eye_def)
  qed
  have "matmul (gmat n (\<lambda>i. i) ?s) (gmat n (\<lambda>i. i) ?s) = Inr (gmat n (\<lambda>i. i) (\<lambda>i. ?s i * ?s i))"
    by (rule matmul_gmat) simp
  also have "gmat n (\<lambda>i. i) (\<lambda>i. ?s i * ?s i) = eye n"
    unfolding eye_gmat by (rule gmat_cong) simp
  finally have "matmul (todense M) (todense M) = Inr (eye n)" using td by simp
  with M(1) ne rej show ?thesis by blast
qed

text \<open>
  Claim C5 at the reflection of the first coordinate in dimension \<open>200000\<close>, built by
  \<open>oneline2matrix\<close> from the identity notation and the signs \<open>[-1, 1, \<dots>, 1]\<close>: the generator
  is not the identity and squares to the identity, yet \<open>C2.__init__\<close> raises
  ``Generator must not be the identity''. The trace \<open>199998\<close> is within the tolerance
  \<open>1e-8 + 1e-5 * 200000\<close> of \<^verbatim>\<open>np.isclose\<close>, so the trace test is not exact.
\<close>

theorem C2_rejects_reflection:
  "\<exists>M. oneline2matrix (map int [0..<200000]) (Some ((-1) # replicate (200000 - 1) 1)) = Inr (Sparse M) \<and>
       todense M \<noteq> eye 200000 \<and>
       matmul (todense M) (todense M) = Inr (eye 200000) \<and>
       C2_init (Sparse M) = Inl (AssertionError ''Generator must not be the identity'')"
  by (rule reflection_rejected) (rule order_refl)

subsection \<open>The canonical generator of \<open>C2\<close>\<close>

lemma cfix_invol:
  assumes "2 * n \<le> D" "i < D"
  shows "cfix D n i < D" and "cfix D n (cfix D n i) = i"
  using assms by (auto simp: cfix_def)

lemma cfix_bij: "2 * n \<le> D \<Longrightarrow> bij_betw (cfix D n) {..<D} {..<D}"
  by (rule bij_betw_byWitness[where f' = "cfix D n"]) (auto simp: cfix_invol)

lemma rev_upt_nth: "i < D \<Longrightarrow> map int (rev [0..<D]) ! i = int (D - 1 - i)"
  by (simp add: rev_nth)

lemma flip_ends_nth:
  assumes "2 * n \<le> length p" "i < length p"
  shows "flip_ends n p ! i = (if i < n \<or> length p - n \<le> i then p ! (length p - 1 - i) else p ! i)"
proof -
  let ?D = "length p"
  define R where "R = rev (drop (?D - n) p)"
  define S where "S = drop n p"
  define B where "B = rev (take n p)"
  have lR: "length R = n" and lS: "length S = ?D - n" and lB: "length B = n"
    using assms by (simp_all add: R_def S_def B_def)
  have R: "R ! k = p ! (?D - 1 - k)" if "k < n" for k
  proof -
    have "R ! k = drop (?D - n) p ! (n - Suc k)"
      using that assms unfolding R_def by (simp add: rev_nth)
    also have "\<dots> = p ! (?D - n + (n - Suc k))" using that assms by simp
    also have "?D - n + (n - Suc k) = ?D - 1 - k" using that assms by linarith
    finally show ?thesis .
  qed
  have S: "S ! k = p ! (n + k)" if "k < ?D - n" for k
    using that unfolding S_def by simp
  have B: "B ! k = p ! (n - Suc k)" if "k < n" for k
    using that assms unfolding B_def by (simp add: rev_nth)
  have fe: "flip_ends n p = take (?D - n) (R @ S) @ B"
    using lR lS assms by (simp add: flip_ends_def Let_def R_def S_def B_def)
  have lT: "length (take (?D - n) (R @ S)) = ?D - n" using lR lS assms by simp
  consider "i < n" | "n \<le> i" "i < ?D - n" | "?D - n \<le> i" by linarith
  then show ?thesis
  proof cases
    case 1
    then have in1: "i < ?D - n" using assms by linarith
    have "flip_ends n p ! i = take (?D - n) (R @ S) ! i"
      unfolding fe using in1 lT by (simp only: nth_append if_True)
    also have "\<dots> = (R @ S) ! i" using in1 by (rule nth_take)
    also have "\<dots> = R ! i" using 1 lR by (simp only: nth_append if_True)
    also have "\<dots> = p ! (?D - 1 - i)" by (rule R[OF 1])
    finally show ?thesis using 1 by simp
  next
    case 2
    have "flip_ends n p ! i = take (?D - n) (R @ S) ! i"
      unfolding fe using 2(2) lT by (simp only: nth_append if_True)
    also have "\<dots> = (R @ S) ! i" using 2(2) by (rule nth_take)
    also have "\<dots> = S ! (i - n)" using 2(1) lR by (simp add: nth_append)
    also have "\<dots> = p ! (n + (i - n))" by (rule S) (use 2 in linarith)
    also have "n + (i - n) = i" using 2(1) by simp
    finally show ?thesis using 2 by simp
  next
    case 3
    have "\<not> i < length (take (?D - n) (R @ S))" unfolding lT using 3 by linarith
    then have "(take (?D - n) (R @ S) @ B) ! i = B ! (i - length (take (?D - n) (R @ S)))"
      by (simp only: nth_append if_False)
    then have "flip_ends n p ! i = B ! (i - (?D - n))"
      unfolding fe lT .
    also have "\<dots> = p ! (n - Suc (i - (?D - n)))" by (rule B) (use 3 assms in linarith)
    also have "n - Suc (i - (?D - n)) = ?D - 1 - i" using 3 assms by linarith
    finally show ?thesis using 3 by simp
  qed
qed

lemma flip_ends_rev:
  assumes "2 * n \<le> D"
  shows "flip_ends n (map int (rev [0..<D])) = map (\<lambda>i. int (cfix D n i)) [0..<D]"
proof (rule nth_equalityI)
  let ?p = "map int (rev [0..<D])"
  have lp: "length ?p = D" by simp
  show len: "length (flip_ends n ?p) = length (map (\<lambda>i. int (cfix D n i)) [0..<D])"
    using assms by (simp add: flip_ends_def Let_def)
  fix i assume "i < length (flip_ends n ?p)"
  then have i: "i < D" using len by simp
  have "flip_ends n ?p ! i = (if i < n \<or> D - n \<le> i then ?p ! (D - 1 - i) else ?p ! i)"
    using flip_ends_nth[of n ?p i] assms i unfolding lp by blast
  also have "\<dots> = int (cfix D n i)"
    using i rev_upt_nth[of "D - 1 - i" D] rev_upt_nth[OF i] by (simp add: cfix_def)
  finally show "flip_ends n ?p ! i = map (\<lambda>i. int (cfix D n i)) [0..<D] ! i" using i by simp
qed

lemma rev_cfix0: "map int (rev [0..<D]) = map (\<lambda>i. int (cfix D 0 i)) [0..<D]"
  by (rule nth_equalityI) (simp_all add: rev_nth cfix_def)

lemma sum_two_nonpositive:
  fixes t :: "nat \<Rightarrow> int"
  assumes "\<And>i. i < D \<Longrightarrow> t i \<le> 1" "a < D" "b < D" "a \<noteq> b" "t a \<le> 0" "t b \<le> 0"
  shows "(\<Sum>i<D. t i) \<le> int D - 2"
proof -
  have "(\<Sum>i<D. t i) = t a + (\<Sum>i\<in>{..<D} - {a}. t i)"
    by (rule sum.remove) (use assms(2) in auto)
  also have "(\<Sum>i\<in>{..<D} - {a}. t i) = t b + (\<Sum>i\<in>{..<D} - {a} - {b}. t i)"
    by (rule sum.remove) (use assms(3,4) in auto)
  also have "(\<Sum>i\<in>{..<D} - {a} - {b}. t i) \<le> (\<Sum>i\<in>{..<D} - {a} - {b}. 1)"
    by (rule sum_mono) (use assms(1) in auto)
  also have "(\<Sum>i\<in>{..<D} - {a} - {b}. (1::int)) = int D - 2"
    using assms(2,3,4) by (simp add: card_Diff_singleton_if of_nat_diff)
  finally show ?thesis using assms(5,6) by simp
qed

lemma not_isclose_far:
  assumes "a \<le> b - 2" "b < 200000" "0 \<le> b"
  shows "\<not> isclose a b"
proof -
  have "2 \<le> \<bar>a - b\<bar>" using assms(1) by linarith
  moreover have "200000000 \<le> 100000000 * y" if "2 \<le> y" for y :: int
    using that by simp
  ultimately have "200000000 \<le> 100000000 * \<bar>a - b\<bar>" by blast
  moreover have "1 + 1000 * \<bar>b\<bar> < 200000000" using assms by linarith
  ultimately show ?thesis by (simp add: isclose_def)
qed

lemma trace_eye: "trace (eye n) = int n"
  by (simp add: eye_gmat trace_gmat)

lemma odd_half: "odd (D::nat) \<Longrightarrow> D = 2 * (D div 2) + 1"
  by presburger

lemma card_fixed:
  assumes n: "2 * n + 2 \<le> D" and neg: "neg \<Longrightarrow> odd D"
  shows "card {i. i < D \<and> i = cfix D n i \<and> csign neg D i = 1}
       = 2 * n + (if odd D \<and> \<not> neg then 1 else 0)"
proof -
  let ?mid = "if odd D \<and> \<not> neg then {D div 2} else {}"
  have "{i. i < D \<and> i = cfix D n i \<and> csign neg D i = 1} = {..<n} \<union> {D - n..<D} \<union> ?mid"
  proof (rule set_eqI, rule iffI)
    fix i assume "i \<in> {i. i < D \<and> i = cfix D n i \<and> csign neg D i = 1}"
    then have i: "i < D" "i = cfix D n i" "csign neg D i = 1" by auto
    show "i \<in> {..<n} \<union> {D - n..<D} \<union> ?mid"
    proof (cases "i < n \<or> D - n \<le> i")
      case True
      with i(1) show ?thesis by auto
    next
      case False
      with i(2) have e: "i = D - 1 - i" by (simp add: cfix_def)
      with i(1) have "D = 2 * i + 1" by linarith
      then have "odd D" "i = D div 2" by simp_all
      with i(3) show ?thesis by (auto simp: csign_def split: if_splits)
    qed
  next
    fix i assume a: "i \<in> {..<n} \<union> {D - n..<D} \<union> ?mid"
    have "i < D \<and> i = cfix D n i \<and> csign neg D i = 1"
    proof (cases "i \<in> ?mid")
      case True
      then have o: "odd D" "\<not> neg" "i = D div 2" by (auto split: if_splits)
      then have e: "D = 2 * i + 1" using odd_half[of D] by simp
      then have "i < D" "D - 1 - i = i" by linarith+
      then have "i = cfix D n i" by (simp add: cfix_def)
      moreover have "csign neg D i = 1" using o(2) by (simp add: csign_def)
      ultimately show ?thesis using \<open>i < D\<close> by simp
    next
      case False
      with a have z: "i < n \<or> (D - n \<le> i \<and> i < D)" by auto
      then have "i < D" using n by linarith
      moreover have "i = cfix D n i" using z by (auto simp: cfix_def)
      moreover have "csign neg D i = 1"
      proof (cases neg)
        case True
        from neg[OF True] have "D = 2 * (D div 2) + 1" by (rule odd_half)
        with z n have "i \<noteq> D div 2" by linarith
        then show ?thesis by (simp add: csign_def)
      next
        case False
        then show ?thesis by (simp add: csign_def)
      qed
      ultimately show ?thesis by simp
    qed
    then show "i \<in> {i. i < D \<and> i = cfix D n i \<and> csign neg D i = 1}" by simp
  qed
  moreover have "card ({..<n} \<union> {D - n..<D} \<union> ?mid) = 2 * n + (if odd D \<and> \<not> neg then 1 else 0)"
  proof -
    have d1: "{..<n} \<inter> {D - n..<D} = {}" using n by auto
    have c1: "card ({..<n} \<union> {D - n..<D}) = 2 * n"
      using n by (simp add: card_Un_disjoint[OF _ _ d1])
    show ?thesis
    proof (cases "odd D \<and> \<not> neg")
      case True
      then have "D = 2 * (D div 2) + 1" using odd_half[of D] by simp
      with n have "D div 2 \<notin> {..<n} \<union> {D - n..<D}" by auto
      with True c1 show ?thesis by simp
    next
      case False
      with c1 show ?thesis by auto
    qed
  qed
  ultimately show ?thesis by simp
qed

lemma trace_canonical:
  assumes n: "2 * n + 2 \<le> D" and neg: "neg \<Longrightarrow> odd D"
  shows "trace (gmat D (cfix D n) (csign neg D))
       = int (2 * n) + (if neg then -1 else if odd D then 1 else 0)"
proof -
  let ?f = "cfix D n" and ?s = "csign neg D"
  have Dpos: "0 < D" using n by simp
  have mid: "?f (D div 2) = D div 2" if neg
  proof -
    from neg[OF that] have "D = 2 * (D div 2) + 1" by (rule odd_half)
    with n show ?thesis by (auto simp: cfix_def)
  qed
  have "(if i = ?f i then ?s i else 0)
      = of_bool (i = ?f i \<and> ?s i = 1) - (if i = D div 2 then (if neg then 1 else 0) else 0)" for i
    using mid by (auto simp: csign_def)
  then have "trace (gmat D ?f ?s)
      = (\<Sum>i<D. of_bool (i = ?f i \<and> ?s i = 1) - (if i = D div 2 then (if neg then 1 else 0) else 0))"
    by (simp only: trace_gmat)
  also have "\<dots> = (\<Sum>i<D. of_bool (i = ?f i \<and> ?s i = 1))
                   - (\<Sum>i<D. if i = D div 2 then (if neg then 1 else 0) else (0::int))"
    by (rule sum_subtractf)
  also have "(\<Sum>i<D. of_bool (i = ?f i \<and> ?s i = 1)) = int (card ({..<D} \<inter> {i. i = ?f i \<and> ?s i = 1}))"
    by simp
  also have "{..<D} \<inter> {i. i = ?f i \<and> ?s i = 1} = {i. i < D \<and> i = ?f i \<and> ?s i = 1}" by auto
  also have "card {i. i < D \<and> i = ?f i \<and> ?s i = 1} = 2 * n + (if odd D \<and> \<not> neg then 1 else 0)"
    by (rule card_fixed[OF n neg])
  also have "(\<Sum>i<D. if i = D div 2 then (if neg then 1 else 0) else (0::int)) = (if neg then 1 else 0)"
    using Dpos by (simp add: sum.delta)
  finally show ?thesis using neg by auto
qed

lemma canonical_core:
  assumes n: "2 * n + 2 \<le> D" and neg: "neg \<Longrightarrow> odd D"
    and r: "r = map (csign neg D) [0..<D]"
  shows "\<exists>G H. oneline2matrix (map (\<lambda>i. int (cfix D n i)) [0..<D]) (Some r) = Inr H \<and>
           C2_init H =
             (if isclose (int (2 * n) + (if neg then -1 else if odd D then 1 else 0)) (int D)
              then Inl (AssertionError ''Generator must not be the identity'')
              else Inr G) \<and>
           n_inv_dims G = 2 * n + (if odd D \<and> \<not> neg then 1 else 0)"
proof -
  let ?p = "map (\<lambda>i. int (cfix D n i)) [0..<D]" and ?f = "cfix D n" and ?s = "csign neg D"
  have n2: "2 * n \<le> D" and Dpos: "0 < D" using n by simp_all
  have lp: "length ?p = D" by simp
  have bij: "bij_betw ?f {..<D} {..<D}" by (rule cfix_bij[OF n2])
  have inj: "inj_on ?f {..<D}" using bij by (simp add: bij_betw_def)
  have "inj_on (\<lambda>i. int (?f i)) (set [0..<D])"
    by (rule inj_onI) (use inj in \<open>auto simp: inj_on_def\<close>)
  then have dp: "distinct ?p" by (simp add: distinct_map)
  have so: "signs_or_ones D (Some r) = r" using Dpos r by (auto simp: signs_or_ones_def)
  have lr: "length (signs_or_ones (length ?p) (Some r)) = length ?p"
    unfolding lp so by (simp add: r)
  have rng: "\<forall>v \<in> set ?p. \<bar>v\<bar> < int (length ?p)"
    using cfix_invol(1)[OF n2] by auto
  from oneline2matrix_gmat[OF dp lr rng] obtain M where
    M: "oneline2matrix ?p (Some r) = Inr (Sparse M)"
    "todense M = gmat (length ?p) (\<lambda>i. nat \<bar>?p ! i\<bar>)
        (\<lambda>i. int8 (signs_or_ones (length ?p) (Some r) ! i))"
    by blast
  have "gmat (length ?p) (\<lambda>i. nat \<bar>?p ! i\<bar>) (\<lambda>i. int8 (signs_or_ones (length ?p) (Some r) ! i))
      = gmat D ?f ?s"
    unfolding lp so by (rule gmat_cong) (simp add: r csign_def)
  with M(2) have e: "entries (Sparse M) = gmat D ?f ?s" by simp
  have sq: "\<And>i. i < D \<Longrightarrow> ?s i * ?s i = 1" by (simp add: csign_def)
  from C2_init_gmat[OF e Dpos bij sq] obtain G where
    G: "n_inv_dims G = card {i. i < D \<and> i = ?f i \<and> ?s i = 1}"
    and C: "C2_init (Sparse M) =
             (if isclose (trace (gmat D ?f ?s)) (int D)
              then Inl (AssertionError ''Generator must not be the identity'')
              else if \<not> isclose (trace (gmat D (\<lambda>i. ?f (?f i)) (\<lambda>i. ?s i * ?s (?f i)))) (int D)
              then Inl (AssertionError ''Generator is not cyclic h @ h != I'')
              else Inr G)"
    by blast
  have mid: "?s i * ?s (?f i) = 1" if i: "i < D" for i
  proof (cases "neg \<and> (i = D div 2 \<or> ?f i = D div 2)")
    case True
    then have o: "D = 2 * (D div 2) + 1" using neg odd_half[of D] by simp
    then have fm: "?f (D div 2) = D div 2" by (auto simp: cfix_def)
    have "D div 2 < D" using Dpos by simp
    have "i = D div 2"
    proof (rule ccontr)
      assume c: "i \<noteq> D div 2"
      with True have "?f i = D div 2" by simp
      then have "?f (?f i) = ?f (D div 2)" by simp
      with cfix_invol(2)[OF n2 i] fm c show False by simp
    qed
    with fm show ?thesis by (simp add: csign_def)
  next
    case False
    then show ?thesis by (auto simp: csign_def)
  qed
  have "gmat D (\<lambda>i. ?f (?f i)) (\<lambda>i. ?s i * ?s (?f i)) = eye D"
    unfolding eye_gmat by (rule gmat_cong) (simp add: cfix_invol(2)[OF n2] mid)
  then have cy: "isclose (trace (gmat D (\<lambda>i. ?f (?f i)) (\<lambda>i. ?s i * ?s (?f i)))) (int D)"
    by (simp add: trace_eye)
  have tr: "trace (gmat D ?f ?s) = int (2 * n) + (if neg then -1 else if odd D then 1 else 0)"
    by (rule trace_canonical[OF n neg])
  have C1: "C2_init (Sparse M) =
             (if isclose (trace (gmat D ?f ?s)) (int D)
              then Inl (AssertionError ''Generator must not be the identity'')
              else Inr G)"
    by (simp only: C cy not_True_eq_False if_False)
  have C2: "C2_init (Sparse M) =
             (if isclose (int (2 * n) + (if neg then -1 else if odd D then 1 else 0)) (int D)
              then Inl (AssertionError ''Generator must not be the identity'')
              else Inr G)"
    by (simp only: C1 tr)
  have G2: "n_inv_dims G = 2 * n + (if odd D \<and> \<not> neg then 1 else 0)"
    unfolding G by (rule card_fixed[OF n neg])
  show ?thesis
    by (rule exI[of _ G], rule exI[of _ "Sparse M"]) (intro conjI M(1) C2 G2)
qed

lemma bind_eq_Inr: "bind m f = Inr y \<longleftrightarrow> (\<exists>x. m = Inr x \<and> f x = Inr y)"
  by (cases m) (simp_all add: bind_def)

lemma canonical_step:
  assumes dim: "0 < dim"
    and idn: "0 \<le> idn" "even idn" "idn + 2 \<le> dim"
    and neg: "neg \<Longrightarrow> odd dim"
    and r: "r = (if neg then (replicate (nat dim) 1)
                   [nat (dim div 2) := replicate (nat dim) 1 ! nat (dim div 2) * (-1)]
                else replicate (nat dim) 1)"
  shows "\<exists>G H. oneline2matrix
                 (if idn div 2 > 0 then flip_ends (nat (idn div 2)) (map int (rev [0..<nat dim]))
                  else map int (rev [0..<nat dim])) (Some r) = Inr H \<and>
           C2_init H =
             (if isclose (idn + (if neg then -1 else if odd dim then 1 else 0)) dim
              then Inl (AssertionError ''Generator must not be the identity'')
              else Inr G) \<and>
           int (n_inv_dims G) = idn + (if odd dim \<and> \<not> neg then 1 else 0)"
proof -
  define D where "D = nat dim"
  define n where "n = nat (idn div 2)"
  have two_n: "int (2 * n) = idn" using idn(1,2) by (auto simp: n_def)
  have n: "2 * n + 2 \<le> D" using two_n idn(3) dim(1) unfolding D_def by linarith
  have iD: "int D = dim" using dim by (simp add: D_def)
  have od: "odd D \<longleftrightarrow> odd dim" using dim(1) by (simp add: D_def even_nat_iff)
  have neg': "neg \<Longrightarrow> odd D" using neg od by simp
  have half: "nat (dim div 2) = D div 2" using dim(1) by (simp add: D_def nat_div_distrib)
  have p: "(if idn div 2 > 0 then flip_ends (nat (idn div 2)) (map int (rev [0..<nat dim]))
            else map int (rev [0..<nat dim])) = map (\<lambda>i. int (cfix D n i)) [0..<D]"
  proof (cases "idn div 2 > 0")
    case True
    have "2 * n \<le> D" using n by simp
    from flip_ends_rev[OF this] True show ?thesis by (simp add: D_def n_def)
  next
    case False
    then have "n = 0" by (simp add: n_def)
    with False rev_cfix0[of D] show ?thesis by (simp add: D_def)
  qed
  have r': "r = map (csign neg D) [0..<D]"
  proof (rule nth_equalityI)
    show "length r = length (map (csign neg D) [0..<D])" by (simp add: r D_def)
  next
    fix i assume "i < length r"
    then have i: "i < D" by (simp add: r D_def split: if_splits)
    have "D div 2 < D" using i by simp
    then show "r ! i = map (csign neg D) [0..<D] ! i"
      using i unfolding r half D_def[symmetric] by (simp add: csign_def nth_list_update)
  qed
  from canonical_core[OF n neg' r'] obtain G H where
    H: "oneline2matrix (map (\<lambda>i. int (cfix D n i)) [0..<D]) (Some r) = Inr H"
    and C: "C2_init H =
             (if isclose (int (2 * n) + (if neg then -1 else if odd D then 1 else 0)) (int D)
              then Inl (AssertionError ''Generator must not be the identity'')
              else Inr G)"
    and G: "n_inv_dims G = 2 * n + (if odd D \<and> \<not> neg then 1 else 0)" by blast
  have G': "int (n_inv_dims G) = idn + (if odd dim \<and> \<not> neg then 1 else 0)"
    unfolding G using two_n od by simp
  have C': "C2_init H =
             (if isclose (idn + (if neg then -1 else if odd dim then 1 else 0)) dim
              then Inl (AssertionError ''Generator must not be the identity'')
              else Inr G)"
    unfolding C two_n iD od ..
  show ?thesis
    unfolding p by (rule exI[of _ G], rule exI[of _ H]) (intro conjI H C' G')
qed

text \<open>
  \<open>C2.canonical_group\<close> on a request whose adjusted value is not negative: the generator
  has the trace \<open>canonical_trace d inv_dims\<close>, the identity test of \<open>C2.__init__\<close> decides,
  and the group it lets through has the adjusted number of invariant dimensions.
\<close>

lemma canonical_group_cases:
  assumes "0 < dim" "req < dim - 1" "0 \<le> req \<or> even dim \<and> req = -1"
  shows "\<exists>G. int (n_inv_dims G) = (if even dim \<and> odd req then req + 1 else req) \<and>
           C2_canonical_group dim req =
             (if isclose (canonical_trace dim req) dim
              then Inl (AssertionError ''Generator must not be the identity'')
              else Inr G)"
proof -
  let ?ones = "replicate (nat dim) (1::int)"
  let ?p = "\<lambda>idn. if idn div 2 > 0 then flip_ends (nat (idn div 2)) (map int (rev [0..<nat dim]))
                  else map int (rev [0..<nat dim])"
  have fin: "\<exists>G. int (n_inv_dims G) = inv1 \<and>
           bind (oneline2matrix (?p idn) (Some r)) (\<lambda>H.
             bind (C2_init H) (\<lambda>G.
               if int (n_inv_dims G) \<noteq> inv1 then Inl (AssertionError ''G.n_inv_dims'')
               else Inr G)) = (if c then Inl e else Inr G)"
    if "\<exists>G H. oneline2matrix (?p idn) (Some r) = Inr H \<and>
           C2_init H = (if c then Inl e else Inr G) \<and> int (n_inv_dims G) = inv1"
    for idn r inv1 c e
  proof -
    from that obtain G H where "oneline2matrix (?p idn) (Some r) = Inr H"
      "C2_init H = (if c then Inl e else Inr G)" "int (n_inv_dims G) = inv1" by blast
    then show ?thesis by (intro exI[of _ G]) simp
  qed
  consider (oe) "odd dim" "even req" | (oo) "odd dim" "odd req"
    | (eo) "even dim" "odd req" | (ee) "even dim" "even req" by blast
  then show ?thesis
  proof cases
    case oe
    have m: "dim mod 2 > 0" "req mod 2 = 0" using oe by presburger+
    have nn: "0 \<le> req" using oe assms(3) by auto
    have i: "req + 2 \<le> dim" using oe assms by presburger
    from canonical_step[OF assms(1) nn oe(2) i, of True, OF oe(1) refl]
    have "\<exists>G H. oneline2matrix (?p req)
        (Some (?ones[nat (dim div 2) := ?ones ! nat (dim div 2) * (-1)])) = Inr H \<and>
        C2_init H = (if isclose (req - 1) dim
              then Inl (AssertionError ''Generator must not be the identity'') else Inr G) \<and>
        int (n_inv_dims G) = req" using oe by simp
    from fin[OF this] show ?thesis
      using assms oe m by (simp add: C2_canonical_group_def canonical_trace_def Let_def)
  next
    case oo
    have m: "dim mod 2 > 0" "req mod 2 \<noteq> 0" using oo by presburger+
    have nn: "0 \<le> req" using oo assms(3) by auto
    have i: "0 \<le> req - 1" "even (req - 1)" "req - 1 + 2 \<le> dim" using oo nn assms by presburger+
    from canonical_step[OF assms(1) i, of False ?ones] oo
    have "\<exists>G H. oneline2matrix (?p (req - 1)) (Some ?ones) = Inr H \<and>
        C2_init H = (if isclose req dim
              then Inl (AssertionError ''Generator must not be the identity'') else Inr G) \<and>
        int (n_inv_dims G) = req" by simp
    from fin[OF this] show ?thesis
      using assms oo m by (simp add: C2_canonical_group_def canonical_trace_def Let_def)
  next
    case eo
    have m: "\<not> dim mod 2 > 0" "req mod 2 > 0" using eo by presburger+
    have nn: "-1 \<le> req" using assms(3) by auto
    have i: "0 \<le> req + 1" "even (req + 1)" "req + 1 + 2 \<le> dim" using eo nn assms by presburger+
    from canonical_step[OF assms(1) i, of False ?ones] eo
    have "\<exists>G H. oneline2matrix (?p (req + 1)) (Some ?ones) = Inr H \<and>
        C2_init H = (if isclose (req + 1) dim
              then Inl (AssertionError ''Generator must not be the identity'') else Inr G) \<and>
        int (n_inv_dims G) = req + 1" by simp
    from fin[OF this] show ?thesis
      using assms eo m by (simp add: C2_canonical_group_def canonical_trace_def Let_def)
  next
    case ee
    have m: "\<not> dim mod 2 > 0" "\<not> req mod 2 > 0" using ee by presburger+
    have nn: "0 \<le> req" using ee assms(3) by auto
    have i: "req + 2 \<le> dim" using ee assms by presburger
    from canonical_step[OF assms(1) nn ee(2) i, of False ?ones] ee
    have "\<exists>G H. oneline2matrix (?p req) (Some ?ones) = Inr H \<and>
        C2_init H = (if isclose req dim
              then Inl (AssertionError ''Generator must not be the identity'') else Inr G) \<and>
        int (n_inv_dims G) = req" by simp
    from fin[OF this] show ?thesis
      using assms ee m by (simp add: C2_canonical_group_def canonical_trace_def Let_def)
  qed
qed

text \<open>
  Claim C4, as amended. For every \<open>d > 0\<close> and every \<open>inv_dims < d - 1\<close> whose adjusted
  value is not negative (\<open>inv_dims \<ge> 0\<close>, or \<open>inv_dims = -1\<close> with \<open>d\<close> even), and for which
  the trace of the generator built is outside the tolerance of the identity test
  \<^verbatim>\<open>np.isclose(trace, d)\<close>, \<open>C2.canonical_group(d, inv_dims)\<close> returns a group whose
  \<open>n_inv_dims\<close> is \<open>inv_dims\<close>, except when \<open>d\<close> is even and \<open>inv_dims\<close> odd, where it is
  \<open>inv_dims + 1\<close>.
\<close>

theorem canonical_group_inv_dims:
  assumes "0 < dim" "req < dim - 1" "0 \<le> req \<or> even dim \<and> req = -1"
    and "\<not> isclose (canonical_trace dim req) dim"
  shows "\<exists>G. C2_canonical_group dim req = Inr G \<and>
           int (n_inv_dims G) = (if even dim \<and> odd req then req + 1 else req)"
  using canonical_group_cases[OF assms(1,2,3)] assms(4) by auto

theorem canonical_group_inv_dims_witness:
  "(0::int) < 6 \<and> (3::int) < 6 - 1 \<and> \<not> isclose (canonical_trace 6 3) 6 \<and>
   (\<exists>G. C2_canonical_group 6 3 = Inr G \<and> int (n_inv_dims G) = 4) \<and>
   (\<exists>G. C2_canonical_group 4 (-1) = Inr G \<and> int (n_inv_dims G) = 0) \<and>
   (\<exists>G. C2_canonical_group 200000 0 = Inr G \<and> int (n_inv_dims G) = 0)"
  using canonical_group_inv_dims[of 6 3] canonical_group_inv_dims[of 4 "-1"]
    canonical_group_inv_dims[of 200000 0]
  by (simp add: isclose_def canonical_trace_def)

text \<open>
  Claim C4 as stated fails for a negative request: \<open>d = 3\<close>, \<open>inv_dims = -1\<close> passes both
  preconditions, and the postcondition assertion raises (the group built has one invariant
  dimension).
\<close>

theorem canonical_group_negative_request:
  "(0::int) < 3 \<and> (-1::int) < 3 - 1 \<and>
   C2_canonical_group 3 (-1) = Inl (AssertionError ''G.n_inv_dims'')"
  by code_simp

subsection \<open>The requests that \<open>C2.canonical_group\<close> serves\<close>

lemma post_negative:
  assumes "v < 0"
  shows "bind m (\<lambda>H. bind (k H) (\<lambda>G. if int (n_inv_dims G) \<noteq> v then Inl e else Inr G)) \<noteq> Inr G'"
proof (cases m)
  case (Inl a)
  then show ?thesis by (simp add: bind_def)
next
  case (Inr H)
  show ?thesis
  proof (cases "k H")
    case (Inl a)
    with Inr show ?thesis by (simp add: bind_def)
  next
    case (Inr G)
    have "int (n_inv_dims G) \<noteq> v" using assms by linarith
    with Inr \<open>m = Inr H\<close> show ?thesis by (simp add: bind_def)
  qed
qed

lemma canonical_group_form:
  assumes "0 < dim" "req < dim - 1"
  shows "\<exists>p r. C2_canonical_group dim req =
           bind (oneline2matrix p (Some r)) (\<lambda>H. bind (C2_init H) (\<lambda>G.
             if int (n_inv_dims G) \<noteq> (if even dim \<and> odd req then req + 1 else req)
             then Inl (AssertionError ''G.n_inv_dims'') else Inr G))"
proof -
  consider (od) "odd dim" "even req" | (oo) "odd dim" "odd req"
    | (eo) "even dim" "odd req" | (ee) "even dim" "even req" by blast
  then show ?thesis
  proof cases
    case od
    have m: "dim mod 2 > 0" "req mod 2 = 0" using od by presburger+
    show ?thesis using assms m od
      by (simp add: C2_canonical_group_def Let_def) blast
  next
    case oo
    have m: "dim mod 2 > 0" "req mod 2 \<noteq> 0" using oo by presburger+
    show ?thesis using assms m oo
      by (simp add: C2_canonical_group_def Let_def) blast
  next
    case eo
    have m: "\<not> dim mod 2 > 0" "req mod 2 > 0" using eo by presburger+
    show ?thesis using assms m eo
      by (simp add: C2_canonical_group_def Let_def) blast
  next
    case ee
    have m: "\<not> dim mod 2 > 0" "\<not> req mod 2 > 0" using ee by presburger+
    show ?thesis using assms m ee
      by (simp add: C2_canonical_group_def Let_def) blast
  qed
qed

text \<open>
  The call returns a group for exactly the inputs of the amended claim: the two preconditions,
  an adjusted request that is not negative, and a generator whose trace is outside the
  tolerance of the identity test.
\<close>

lemma canonical_group_returns_iff:
  "(\<exists>G. C2_canonical_group dim req = Inr G) \<longleftrightarrow>
     0 < dim \<and> req < dim - 1 \<and> (0 \<le> req \<or> even dim \<and> req = -1) \<and>
     \<not> isclose (canonical_trace dim req) dim"
proof
  assume "0 < dim \<and> req < dim - 1 \<and> (0 \<le> req \<or> even dim \<and> req = -1) \<and>
     \<not> isclose (canonical_trace dim req) dim"
  then have a: "0 < dim" "req < dim - 1" "0 \<le> req \<or> even dim \<and> req = -1"
    and b: "\<not> isclose (canonical_trace dim req) dim" by blast+
  from canonical_group_cases[OF a] b show "\<exists>G. C2_canonical_group dim req = Inr G" by auto
next
  assume "\<exists>G. C2_canonical_group dim req = Inr G"
  then obtain G where G: "C2_canonical_group dim req = Inr G" by blast
  have p: "0 < dim" "req < dim - 1"
    using G by (auto simp: C2_canonical_group_def split: if_splits)
  have nn: "0 \<le> req \<or> even dim \<and> req = -1"
  proof (rule ccontr)
    assume c: "\<not> (0 \<le> req \<or> even dim \<and> req = -1)"
    then have neg: "(if even dim \<and> odd req then req + 1 else req) < 0" by presburger
    from canonical_group_form[OF p] obtain q r where
      eq: "C2_canonical_group dim req =
           bind (oneline2matrix q (Some r)) (\<lambda>H. bind (C2_init H) (\<lambda>G.
             if int (n_inv_dims G) \<noteq> (if even dim \<and> odd req then req + 1 else req)
             then Inl (AssertionError ''G.n_inv_dims'') else Inr G))" by blast
    have "C2_canonical_group dim req \<noteq> Inr G"
      unfolding eq by (rule post_negative[OF neg])
    with G show False by simp
  qed
  from canonical_group_cases[OF p nn] G
  have "\<not> isclose (canonical_trace dim req) dim" by (auto split: if_splits)
  with p nn show "0 < dim \<and> req < dim - 1 \<and> (0 \<le> req \<or> even dim \<and> req = -1) \<and>
     \<not> isclose (canonical_trace dim req) dim" by blast
qed

text \<open>
  The tolerance on integers: a trace \<open>t \<le> d\<close> is within the tolerance of \<open>d\<close> exactly when
  \<open>100000 * (d - t) \<le> d\<close>.
\<close>

lemma isclose_below:
  assumes "t \<le> b" "0 \<le> b"
  shows "isclose t b \<longleftrightarrow> 100000 * (b - t) \<le> b"
proof -
  define k where "k = b - t"
  have a: "\<bar>t - b\<bar> = k" "\<bar>b\<bar> = b" using assms by (simp_all add: k_def)
  have "100000000 * k \<le> 1 + 1000 * b \<longleftrightarrow> 100000 * k \<le> b"
  proof
    assume "100000 * k \<le> b"
    then have "1000 * (100000 * k) \<le> 1000 * b" by (rule mult_left_mono) simp
    then show "100000000 * k \<le> 1 + 1000 * b" by simp
  next
    assume h: "100000000 * k \<le> 1 + 1000 * b"
    show "100000 * k \<le> b"
    proof (rule ccontr)
      assume "\<not> 100000 * k \<le> b"
      then have "b + 1 \<le> 100000 * k" by simp
      then have "1000 * (b + 1) \<le> 1000 * (100000 * k)" by (rule mult_left_mono) simp
      with h show False by simp
    qed
  qed
  then show ?thesis unfolding isclose_def a k_def .
qed

text \<open>Below dimension \<open>200000\<close> every generator built is outside the tolerance.\<close>

lemma canonical_trace_far:
  assumes "0 < dim" "dim < 200000" "req < dim - 1"
  shows "\<not> isclose (canonical_trace dim req) dim"
proof -
  have "canonical_trace dim req \<le> dim - 2"
    using assms(3) unfolding canonical_trace_def by presburger
  from not_isclose_far[OF this assms(2)] assms(1) show ?thesis by simp
qed

text \<open>
  In dimension \<open>200000\<close> the request for \<open>199998\<close> invariant dimensions is refused: the
  generator exchanges the two middle coordinates, and its trace \<open>199998\<close> is within the
  tolerance of the identity test.
\<close>

lemma canonical_group_large_dimension:
  "C2_canonical_group 200000 199998
     = Inl (AssertionError ''Generator must not be the identity'')"
  using canonical_group_cases[of 200000 199998]
  by (simp add: isclose_def canonical_trace_def)

subsection \<open>\<open>Klein4.__init__\<close> on two signed permutations\<close>

lemma Klein4_init_gmat:
  assumes A: "A = Dense (gmat n f s)" and B: "B = Dense (gmat n g t)" and n: "0 < n"
    and bf: "bij_betw f {..<n} {..<n}" and bg: "bij_betw g {..<n} {..<n}"
    and sq: "\<And>i. i < n \<Longrightarrow> s i * s i = 1" and tq: "\<And>i. i < n \<Longrightarrow> t i * t i = 1"
  shows "\<exists>G. Sym_init [A, B] = Inr G \<and> d G = n \<and> discrete_generators G = [A, B] \<and>
           Klein4_init [A, B] =
             (if gmat n (\<lambda>i. f (f i)) (\<lambda>i. s i * s (f i)) \<noteq> eye n
              then Inl (AssertionError ''Generator is not cyclic'')
              else if gmat n (\<lambda>i. g (g i)) (\<lambda>i. t i * t (g i)) \<noteq> eye n
              then Inl (AssertionError ''Generator is not cyclic'')
              else if gmat n (\<lambda>i. g (f (g (f i)))) (\<lambda>i. s i * t (f i) * (s (g (f i)) * t (f (g (f i)))))
                       \<noteq> eye n
              then Inl (AssertionError ''Generators composition a.b is not cyclic'')
              else if gmat n (\<lambda>i. g (f i)) (\<lambda>i. s i * t (f i)) = eye n
              then Inl (AssertionError ''Third action must be non-trivial: a.b != e'')
              else Inr G) \<and>
           Klein4_discrete_actions G
             = Inr [eye n, gmat n f s, gmat n g t, gmat n (\<lambda>i. g (f i)) (\<lambda>i. s i * t (f i))]"
proof -
  have eA: "entries A = gmat n f s" and eB: "entries B = gmat n g t"
    using A B by simp_all
  have uc: "\<forall>h \<in> set [A, B]. unit_columns (entries h)"
    using unit_columns_gmat[OF bf sq] unit_columns_gmat[OF bg tq] eA eB by simp
  from Sym_init_ok[OF _ uc] obtain G where G: "Sym_init [A, B] = Inr G"
    "d G = length (entries ([A, B] ! 0))" "discrete_generators G = [A, B]" by auto
  have dG: "d G = n" using G(2) eA by simp
  have f: "\<And>i. i < n \<Longrightarrow> f i < n" using bf by (auto simp: bij_betw_def)
  have g: "\<And>i. i < n \<Longrightarrow> g i < n" using bg by (auto simp: bij_betw_def)
  have gf: "\<And>i. i < n \<Longrightarrow> g (f i) < n" using f g by simp
  have mm1: "matmul (gmat n f s) (gmat n f s) = Inr (gmat n (\<lambda>i. f (f i)) (\<lambda>i. s i * s (f i)))"
    by (rule matmul_gmat[OF f])
  have mm2: "matmul (gmat n g t) (gmat n g t) = Inr (gmat n (\<lambda>i. g (g i)) (\<lambda>i. t i * t (g i)))"
    by (rule matmul_gmat[OF g])
  have mm3: "matmul (gmat n f s) (gmat n g t) = Inr (gmat n (\<lambda>i. g (f i)) (\<lambda>i. s i * t (f i)))"
    by (rule matmul_gmat[OF f])
  have mm4: "matmul (gmat n (\<lambda>i. g (f i)) (\<lambda>i. s i * t (f i)))
                    (gmat n (\<lambda>i. g (f i)) (\<lambda>i. s i * t (f i)))
      = Inr (gmat n (\<lambda>i. g (f (g (f i)))) (\<lambda>i. s i * t (f i) * (s (g (f i)) * t (f (g (f i))))))"
    by (rule matmul_gmat[OF gf])
  note mm = mm1 mm2 mm3 mm4
  have "Klein4_init [A, B] =
             (if gmat n (\<lambda>i. f (f i)) (\<lambda>i. s i * s (f i)) \<noteq> eye n
              then Inl (AssertionError ''Generator is not cyclic'')
              else if gmat n (\<lambda>i. g (g i)) (\<lambda>i. t i * t (g i)) \<noteq> eye n
              then Inl (AssertionError ''Generator is not cyclic'')
              else if gmat n (\<lambda>i. g (f (g (f i)))) (\<lambda>i. s i * t (f i) * (s (g (f i)) * t (f (g (f i)))))
                       \<noteq> eye n
              then Inl (AssertionError ''Generators composition a.b is not cyclic'')
              else if gmat n (\<lambda>i. g (f i)) (\<lambda>i. s i * t (f i)) = eye n
              then Inl (AssertionError ''Third action must be non-trivial: a.b != e'')
              else Inr G)"
    by (simp add: Klein4_init_def G(1,3)[unfolded A B] dG A B mm allclose_eye Let_def
          matmul_array_def np_allclose_def)
  moreover have "Klein4_discrete_actions G
      = Inr [eye n, gmat n f s, gmat n g t, gmat n (\<lambda>i. g (f i)) (\<lambda>i. s i * t (f i))]"
    by (simp add: Klein4_discrete_actions_def G(3) dG eA eB mm Let_def)
  ultimately show ?thesis using G(1,3) dG by blast
qed

subsection \<open>The canonical generators of \<open>Klein4\<close>\<close>

lemma split_sizes4:
  "split_sizes [m, m, m, m] xs
     = [take m xs, take m (drop m xs), take m (drop (2 * m) xs), take m (drop (3 * m) xs)]"
  by (simp add: numeral_3_eq_3 mult_2 add.commute)

lemma array_split4:
  assumes "length xs = 4 * m"
  shows "array_split xs 4
     = [take m xs, take m (drop m xs), take m (drop (2 * m) xs), take m (drop (3 * m) xs)]"
proof -
  have "replicate 4 m = [m, m, m, m]" by (simp add: numeral_eq_Suc)
  then show ?thesis
    using split_sizes4[of m xs] by (simp add: array_split_def assms Let_def)
qed

lemma quarters_rotate:
  assumes "length xs = 4 * m"
  shows "take m (drop (2 * m) xs) @ take m (drop (3 * m) xs) @ take m xs @ take m (drop m xs)
       = rotate (2 * m) xs"
proof -
  have a: "take m (drop (2 * m) xs) @ take m (drop (3 * m) xs) = drop (2 * m) xs"
  proof -
    have "take m (drop (2 * m) xs) @ take m (drop m (drop (2 * m) xs)) = take (m + m) (drop (2 * m) xs)"
      by (simp only: take_add)
    also have "\<dots> = drop (2 * m) xs" using assms by simp
    finally show ?thesis by (simp add: add.commute numeral_3_eq_3 mult_2)
  qed
  have b: "take m xs @ take m (drop m xs) = take (2 * m) xs"
    by (simp add: take_add mult_2)
  have "rotate (2 * m) xs = drop (2 * m mod length xs) xs @ take (2 * m mod length xs) xs"
    by (rule rotate_drop_take)
  also have "2 * m mod length xs = 2 * m" using assms by (cases "m = 0") simp_all
  finally show ?thesis using a b by simp
qed

lemma kshift_val:
  assumes "i < 4 * m"
  shows "kshift m i = (if i < 2 * m then i + 2 * m else i - 2 * m)"
proof (cases "i < 2 * m")
  case True
  then show ?thesis by (simp add: kshift_def)
next
  case False
  then have e: "i + 2 * m = 4 * m + (i - 2 * m)" by simp
  have l: "i - 2 * m < 4 * m" using assms by simp
  have "(i + 2 * m) mod (4 * m) = (4 * m + (i - 2 * m)) mod (4 * m)" by (simp only: e)
  also have "\<dots> = (i - 2 * m) mod (4 * m)" by (rule mod_add_self1)
  also have "\<dots> = i - 2 * m" using l by (rule mod_less)
  finally show ?thesis using False by (simp add: kshift_def)
qed

lemma canonical_b:
  "(let idx = array_split (map int [0..<4 * m]) 4 in idx ! 2 @ idx ! 3 @ idx ! 0 @ idx ! 1)
     = map (\<lambda>i. int (kshift m i)) [0..<4 * m]"
proof -
  let ?xs = "map int [0..<4 * m]"
  have l: "length ?xs = 4 * m" by simp
  have "(let idx = array_split ?xs 4 in idx ! 2 @ idx ! 3 @ idx ! 0 @ idx ! 1) = rotate (2 * m) ?xs"
    unfolding array_split4[OF l] Let_def using quarters_rotate[OF l]
    by (simp add: numeral_2_eq_2 numeral_3_eq_3)
  also have "\<dots> = map (\<lambda>i. int (kshift m i)) [0..<4 * m]"
  proof (rule nth_equalityI)
    show "length (rotate (2 * m) ?xs) = length (map (\<lambda>i. int (kshift m i)) [0..<4 * m])" by simp
  next
    fix i assume "i < length (rotate (2 * m) ?xs)"
    then have i: "i < 4 * m" by simp
    then have "(2 * m + i) mod (4 * m) < 4 * m" by simp
    then show "rotate (2 * m) ?xs ! i = map (\<lambda>i. int (kshift m i)) [0..<4 * m] ! i"
      using i by (simp add: nth_rotate kshift_def add.commute del: upt_Suc)
  qed
  finally show ?thesis .
qed

lemma kshift_invol:
  assumes "i < 4 * m"
  shows "kshift m i < 4 * m" and "kshift m (kshift m i) = i" and "kshift m i \<noteq> i"
proof -
  have m: "0 < m" using assms by (cases m) auto
  show a: "kshift m i < 4 * m" using assms by (auto simp: kshift_val)
  show "kshift m (kshift m i) = i"
    unfolding kshift_val[OF a] unfolding kshift_val[OF assms] using assms by auto
  show "kshift m i \<noteq> i" unfolding kshift_val[OF assms] using m by auto
qed

lemma anti_kshift:
  assumes "i < 4 * m"
  shows "kshift m (cfix (4 * m) 0 i) = (if i < 2 * m then 2 * m - 1 - i else 6 * m - 1 - i)"
proof -
  have c: "cfix (4 * m) 0 i = 4 * m - 1 - i" using assms by (simp add: cfix_def)
  have l: "4 * m - 1 - i < 4 * m" using assms by simp
  show ?thesis unfolding c kshift_val[OF l] using assms by auto
qed

lemma anti_kshift_invol:
  assumes "i < 4 * m"
  shows "kshift m (cfix (4 * m) 0 (kshift m (cfix (4 * m) 0 i))) = i"
proof -
  let ?h = "\<lambda>i. kshift m (cfix (4 * m) 0 i)"
  have l: "?h i < 4 * m" unfolding anti_kshift[OF assms] using assms by auto
  show ?thesis unfolding anti_kshift[OF l] unfolding anti_kshift[OF assms] using assms by auto
qed

lemma cfix0_nofix:
  assumes "i < 4 * m"
  shows "i \<noteq> cfix (4 * m) 0 i"
proof
  assume "i = cfix (4 * m) 0 i"
  then have "i = 4 * m - 1 - i" using assms by (simp add: cfix_def)
  then have "2 * i + 1 = 4 * m" using assms by linarith
  then show False by presburger
qed

lemma range_ok:
  assumes "\<And>i. i < D \<Longrightarrow> h i < D"
  shows "\<forall>v \<in> set (map (\<lambda>i. int (h i)) [0..<D]).
           \<bar>v\<bar> < int (length (map (\<lambda>i. int (h i)) [0..<D]))"
  using assms by auto

lemma canonical_generators:
  assumes m: "0 < m"
  shows "\<exists>Ma Mb. oneline2matrix (map int (rev [0..<4 * m])) None = Inr (Sparse Ma) \<and>
           oneline2matrix (map (\<lambda>i. int (kshift m i)) [0..<4 * m]) (Some (replicate (4 * m) 1))
             = Inr (Sparse Mb) \<and>
           todense Ma = gmat (4 * m) (cfix (4 * m) 0) (\<lambda>i. 1) \<and>
           todense Mb = gmat (4 * m) (kshift m) (\<lambda>i. 1)"
proof -
  let ?D = "4 * m"
  let ?a = "map int (rev [0..<?D])" and ?b = "map (\<lambda>i. int (kshift m i)) [0..<?D]"
  let ?f = "cfix ?D 0" and ?g = "kshift m" and ?one = "\<lambda>i::nat. 1::int"
  have a: "?a = map (\<lambda>i. int (?f i)) [0..<?D]" by (rule rev_cfix0)
  have bf: "bij_betw ?f {..<?D} {..<?D}" by (rule cfix_bij) simp
  have bg: "bij_betw ?g {..<?D} {..<?D}"
    by (rule bij_betw_byWitness[where f' = ?g]) (auto simp: kshift_invol)
  have inj: "inj_on (\<lambda>i. int (h i)) (set [0..<?D])" if "bij_betw h {..<?D} {..<?D}" for h
    by (rule inj_onI) (use that in \<open>auto simp: bij_betw_def inj_on_def\<close>)
  have so: "signs_or_ones ?D None = replicate ?D 1" "signs_or_ones ?D (Some (replicate ?D 1)) = replicate ?D 1"
    by (simp_all add: signs_or_ones_def)
  have "\<exists>M. oneline2matrix ?a None = Inr (Sparse M) \<and> todense M = gmat ?D ?f ?one"
  proof -
    have dp: "distinct (map (\<lambda>i. int (?f i)) [0..<?D])" using inj[OF bf] by (simp add: distinct_map)
    have lr: "length (signs_or_ones (length (map (\<lambda>i. int (?f i)) [0..<?D])) None)
        = length (map (\<lambda>i. int (?f i)) [0..<?D])" by (simp add: so)
    have rng: "\<forall>v \<in> set (map (\<lambda>i. int (?f i)) [0..<?D]). \<bar>v\<bar> < int (length (map (\<lambda>i. int (?f i)) [0..<?D]))"
      by (rule range_ok) (simp add: cfix_invol(1))
    from oneline2matrix_gmat[OF dp lr rng] obtain M where
      M: "oneline2matrix (map (\<lambda>i. int (?f i)) [0..<?D]) None = Inr (Sparse M)"
      "todense M = gmat (length (map (\<lambda>i. int (?f i)) [0..<?D]))
         (\<lambda>i. nat \<bar>map (\<lambda>i. int (?f i)) [0..<?D] ! i\<bar>)
         (\<lambda>i. int8 (signs_or_ones (length (map (\<lambda>i. int (?f i)) [0..<?D])) None ! i))"
      by blast
    have "todense M = gmat ?D ?f ?one"
      unfolding M(2) length_map length_upt minus_nat.diff_0
      by (rule gmat_cong) (simp add: so)
    with M(1) show ?thesis unfolding a by blast
  qed
  moreover have "\<exists>M. oneline2matrix ?b (Some (replicate ?D 1)) = Inr (Sparse M) \<and> todense M = gmat ?D ?g ?one"
  proof -
    have dp: "distinct ?b" using inj[OF bg] by (simp add: distinct_map)
    have lr: "length (signs_or_ones (length ?b) (Some (replicate ?D 1))) = length ?b"
      by (simp add: so)
    have rng: "\<forall>v \<in> set ?b. \<bar>v\<bar> < int (length ?b)"
      by (rule range_ok) (rule kshift_invol(1))
    from oneline2matrix_gmat[OF dp lr rng] obtain M where
      M: "oneline2matrix ?b (Some (replicate ?D 1)) = Inr (Sparse M)"
      "todense M = gmat (length ?b) (\<lambda>i. nat \<bar>?b ! i\<bar>)
         (\<lambda>i. int8 (signs_or_ones (length ?b) (Some (replicate ?D 1)) ! i))"
      by blast
    have "todense M = gmat ?D ?g ?one"
      unfolding M(2) length_map length_upt minus_nat.diff_0
      by (rule gmat_cong) (simp add: so)
    with M(1) show ?thesis by blast
  qed
  ultimately show ?thesis by blast
qed

text \<open>
  Two sparse generators: the first product \<^verbatim>\<open>a @ a\<close> is sparse and \<^verbatim>\<open>np.allclose\<close>
  raises on it, before any assertion is decided.
\<close>

lemma Klein4_init_sparse:
  assumes uc: "unit_columns (todense Ma)" "unit_columns (todense Mb)"
    and sq: "ncols (todense Ma) = length (todense Ma)"
  shows "Klein4_init [Sparse Ma, Sparse Mb]
       = Inl (TypeError ''ufunc isfinite not supported for the input types'')"
proof -
  have u: "\<forall>h \<in> set [Sparse Ma, Sparse Mb]. unit_columns (entries h)" using uc by simp
  from Sym_init_ok[OF _ u] obtain G where G: "Sym_init [Sparse Ma, Sparse Mb] = Inr G"
    "discrete_generators G = [Sparse Ma, Sparse Mb]" by auto
  have "\<exists>c. matmul_array (Sparse Ma) (Sparse Ma) = Inr (Sparse c)"
    using sq by (simp add: matmul_array_def matmul_def)
  then obtain c where c: "matmul_array (Sparse Ma) (Sparse Ma) = Inr (Sparse c)" by blast
  show ?thesis
    by (simp add: Klein4_init_def G c np_allclose_def Let_def)
qed

lemma Klein4_canonical_sparse:
  assumes m: "0 < m"
  shows "Klein4_canonical_group (int (4 * m))
       = Inl (TypeError ''ufunc isfinite not supported for the input types'')"
proof -
  let ?D = "4 * m"
  from canonical_generators[OF m] obtain Ma Mb where
    Ma: "oneline2matrix (map int (rev [0..<?D])) None = Inr (Sparse Ma)"
    and Mb: "oneline2matrix (map (\<lambda>i. int (kshift m i)) [0..<?D]) (Some (replicate ?D 1))
             = Inr (Sparse Mb)"
    and ta: "todense Ma = gmat ?D (cfix ?D 0) (\<lambda>i. 1)"
    and tb: "todense Mb = gmat ?D (kshift m) (\<lambda>i. 1)" by blast
  have D: "0 < ?D" using m by simp
  have bf: "bij_betw (cfix ?D 0) {..<?D} {..<?D}" by (rule cfix_bij) simp
  have bg: "bij_betw (kshift m) {..<?D} {..<?D}"
    by (rule bij_betw_byWitness[where f' = "kshift m"]) (auto simp: kshift_invol)
  have ua: "unit_columns (todense Ma)" unfolding ta by (rule unit_columns_gmat[OF bf]) simp
  have ub: "unit_columns (todense Mb)" unfolding tb by (rule unit_columns_gmat[OF bg]) simp
  have sq: "ncols (todense Ma) = length (todense Ma)" unfolding ta by simp
  note Kr = Klein4_init_sparse[OF ua ub sq]
  have md: "int ?D mod 4 = 0" by simp
  show ?thesis
    using canonical_b[of m] D Ma Mb Kr
    by (simp add: Klein4_canonical_group_def Let_def md del: of_nat_mult of_nat_numeral)
qed

text \<open>
  The same two matrices in dense storage are accepted: they generate a group of four actions
  whose generators have trace \<open>0\<close>.
\<close>

lemma Klein4_canonical_dense:
  assumes m: "0 < m"
  shows "\<exists>G acts. Klein4_init [Dense (gmat (4 * m) (cfix (4 * m) 0) (\<lambda>i. 1)),
                                Dense (gmat (4 * m) (kshift m) (\<lambda>i. 1))] = Inr G \<and>
           Klein4_discrete_actions G = Inr acts \<and> length acts = 4 \<and>
           generators_characters G = Inr [0, 0] \<and> is_canonical G = Inr True"
proof -
  let ?D = "4 * m"
  let ?f = "cfix ?D 0" and ?g = "kshift m" and ?one = "\<lambda>i::nat. 1::int"
  have D: "0 < ?D" using m by simp
  have bf: "bij_betw ?f {..<?D} {..<?D}" by (rule cfix_bij) simp
  have bg: "bij_betw ?g {..<?D} {..<?D}"
    by (rule bij_betw_byWitness[where f' = ?g]) (auto simp: kshift_invol)
  from Klein4_init_gmat[OF refl refl D bf bg, of ?one ?one] obtain G where
    G: "discrete_generators G = [Dense (gmat ?D ?f ?one), Dense (gmat ?D ?g ?one)]"
    and K: "Klein4_init [Dense (gmat ?D ?f ?one), Dense (gmat ?D ?g ?one)] =
             (if gmat ?D (\<lambda>i. ?f (?f i)) (\<lambda>i. 1 * 1) \<noteq> eye ?D
              then Inl (AssertionError ''Generator is not cyclic'')
              else if gmat ?D (\<lambda>i. ?g (?g i)) (\<lambda>i. 1 * 1) \<noteq> eye ?D
              then Inl (AssertionError ''Generator is not cyclic'')
              else if gmat ?D (\<lambda>i. ?g (?f (?g (?f i)))) (\<lambda>i. 1 * 1 * (1 * 1)) \<noteq> eye ?D
              then Inl (AssertionError ''Generators composition a.b is not cyclic'')
              else if gmat ?D (\<lambda>i. ?g (?f i)) (\<lambda>i. 1 * 1) = eye ?D
              then Inl (AssertionError ''Third action must be non-trivial: a.b != e'')
              else Inr G)"
    and acts: "Klein4_discrete_actions G
             = Inr [eye ?D, gmat ?D ?f ?one, gmat ?D ?g ?one, gmat ?D (\<lambda>i. ?g (?f i)) (\<lambda>i. 1 * 1)]"
    by (auto simp del: mult_1 mult_1_left mult_1_right)
  have e1: "gmat ?D (\<lambda>i. ?f (?f i)) (\<lambda>i. 1 * 1) = eye ?D"
    unfolding eye_gmat by (rule gmat_cong) (simp add: cfix_invol(2))
  have e2: "gmat ?D (\<lambda>i. ?g (?g i)) (\<lambda>i. 1 * 1) = eye ?D"
    unfolding eye_gmat by (rule gmat_cong) (simp add: kshift_invol(2))
  have e3: "gmat ?D (\<lambda>i. ?g (?f (?g (?f i)))) (\<lambda>i. 1 * 1 * (1 * 1)) = eye ?D"
    unfolding eye_gmat by (rule gmat_cong) (simp add: anti_kshift_invol)
  have e4: "gmat ?D (\<lambda>i. ?g (?f i)) (\<lambda>i. 1 * 1) \<noteq> eye ?D"
  proof
    assume "gmat ?D (\<lambda>i. ?g (?f i)) (\<lambda>i. 1 * 1) = eye ?D"
    then have "\<forall>i<?D. ?g (?f i) = i \<and> (1::int) * 1 = 1"
      by (subst (asm) gmat_eq_eye) (auto simp: kshift_invol(1) cfix_invol(1))
    with D have "?g (?f 0) = 0" by blast
    then show False using anti_kshift[OF D] m by (auto split: if_splits)
  qed
  from K e1 e2 e3 e4 have Kr: "Klein4_init [Dense (gmat ?D ?f ?one), Dense (gmat ?D ?g ?one)] = Inr G"
    by simp
  have t1: "trace (gmat ?D ?f ?one) = 0"
    unfolding trace_gmat by (rule sum.neutral) (use cfix0_nofix in auto)
  have t2: "trace (gmat ?D ?g ?one) = 0"
    unfolding trace_gmat by (rule sum.neutral) (use kshift_invol(3)[of _ m] in force)
  have ch: "generators_characters G = Inr [0, 0]"
    by (simp add: generators_characters_def G np_trace_def t1 t2)
  then have "is_canonical G = Inr True" by (simp add: is_canonical_def)
  with Kr acts ch show ?thesis by simp
qed

text \<open>For a dimension that is not a multiple of four the branch is not implemented.\<close>

lemma Klein4_canonical_group_unimplemented:
  assumes "0 < dim" "dim mod 4 \<noteq> 0"
  shows "Klein4_canonical_group dim = Inl (NotImplementedError
           ''TODO: Deal with case where impossible to get all representations irreducible'')"
proof -
  have "0 < dim mod 4" using assms(2) pos_mod_sign[of 4 dim] by linarith
  then show ?thesis using assms(1) by (simp add: Klein4_canonical_group_def Let_def)
qed

text \<open>On a group with a sparse generator \<open>is_canonical\<close> raises too.\<close>

lemma is_canonical_sparse:
  assumes "discrete_generators G = Sparse M # gens"
  shows "is_canonical G = Inl (ValueError ''diag requires an array of at least two dimensions'')"
  using assms by (simp add: is_canonical_def generators_characters_def np_trace_def)

text \<open>
  Claim C7 at \<open>d = 8\<close>: \<open>Klein4.canonical_group(8)\<close> returns no group. Both generators
  come from \<open>oneline2matrix\<close>, which returns sparse matrices, and \<open>Klein4.__init__\<close> hands the
  sparse product \<^verbatim>\<open>a @ a\<close> to \<^verbatim>\<open>np.allclose\<close>, which raises a \<open>TypeError\<close>. The claim
  has the call succeed for every multiple of four; \<open>C2.__init__\<close> branches on \<open>is_sparse\<close>
  for its own tests, \<open>Klein4.__init__\<close> does not.
\<close>

theorem Klein4_canonical_group_raises:
  "Klein4_canonical_group 8
     = Inl (TypeError ''ufunc isfinite not supported for the input types'')"
  using Klein4_canonical_sparse[of 2] by simp

subsection \<open>Below the tolerance threshold the trace tests are exact\<close>

lemma sum_one_negative:
  fixes t :: "nat \<Rightarrow> int"
  assumes "\<And>i. i < D \<Longrightarrow> t i \<le> 1" "a < D" "t a \<le> -1"
  shows "(\<Sum>i<D. t i) \<le> int D - 2"
proof -
  have "(\<Sum>i<D. t i) = t a + (\<Sum>i\<in>{..<D} - {a}. t i)"
    by (rule sum.remove) (use assms(2) in auto)
  also have "(\<Sum>i\<in>{..<D} - {a}. t i) \<le> (\<Sum>i\<in>{..<D} - {a}. 1)"
    by (rule sum_mono) (use assms(1) in auto)
  also have "(\<Sum>i\<in>{..<D} - {a}. (1::int)) = int D - 1"
    using assms(2) by (simp add: of_nat_diff)
  finally show ?thesis using assms(3) by simp
qed

lemma trace_test_exact:
  assumes bij: "bij_betw f {..<n} {..<n}" and sg: "\<And>i. i < n \<Longrightarrow> s i = 1 \<or> s i = -1"
    and n: "n < 200000"
  shows "isclose (trace (gmat n f s)) (int n) \<longleftrightarrow> gmat n f s = eye n"
proof
  assume "gmat n f s = eye n"
  then show "isclose (trace (gmat n f s)) (int n)" by (simp add: trace_eye)
next
  assume c: "isclose (trace (gmat n f s)) (int n)"
  let ?t = "\<lambda>i. if i = f i then s i else 0"
  have t1: "?t i \<le> 1" if "i < n" for i using sg[OF that] by auto
  have f: "\<And>i. i < n \<Longrightarrow> f i < n" using bij by (auto simp: bij_betw_def)
  have inj: "inj_on f {..<n}" using bij by (simp add: bij_betw_def)
  have nz: "s i \<noteq> 0" if "i < n" for i using sg[OF that] by auto
  show "gmat n f s = eye n"
  proof (rule ccontr)
    assume "gmat n f s \<noteq> eye n"
    then obtain i where i: "i < n" "f i \<noteq> i \<or> s i \<noteq> 1"
      using gmat_eq_eye[of n f s, OF f nz] by auto
    have "(\<Sum>i<n. ?t i) \<le> int n - 2"
    proof (cases "f i = i")
      case True
      with i(2) sg[OF i(1)] have "?t i \<le> -1" by auto
      from sum_one_negative[of n ?t, OF t1 i(1) this] show ?thesis .
    next
      case False
      have fi: "f i < n" by (rule f[OF i(1)])
      have "f (f i) \<noteq> f i"
      proof
        assume "f (f i) = f i"
        with inj fi i(1) have "f i = i" by (auto simp: inj_on_def)
        with False show False by simp
      qed
      then have "?t (f i) \<le> 0" by auto
      moreover have "?t i \<le> 0" using False by auto
      ultimately show ?thesis
        using sum_two_nonpositive[of n ?t i "f i", OF t1 i(1) fi] False by auto
    qed
    then have "trace (gmat n f s) \<le> int n - 2" by (simp add: trace_gmat)
    from not_isclose_far[OF this] n c show False by simp
  qed
qed

lemma valid_gpm_gmat:
  assumes v: "valid_gpm P"
  shows "P = gmat (length P) (perm_of P) (sgn_of P)"
proof (rule nth_equalityI)
  show "length P = length (gmat (length P) (perm_of P) (sgn_of P))" by simp
next
  fix i assume i: "i < length P"
  show "P ! i = gmat (length P) (perm_of P) (sgn_of P) ! i"
  proof (rule nth_equalityI)
    show "length (P ! i) = length (gmat (length P) (perm_of P) (sgn_of P) ! i)"
      using valid_gpm_rowD(1)[OF v i] i by (simp add: gmat_def)
  next
    fix j assume "j < length (P ! i)"
    then have j: "j < length P" using valid_gpm_rowD(1)[OF v i] by simp
    show "P ! i ! j = gmat (length P) (perm_of P) (sgn_of P) ! i ! j"
      using gpm_row(3)[OF v i j] i j by (simp add: gmat_nth)
  qed
qed

lemma C2_init_exact_gmat:
  assumes e: "entries A = gmat n f s" and n: "0 < n" "n < 200000"
    and bij: "bij_betw f {..<n} {..<n}" and sg: "\<And>i. i < n \<Longrightarrow> s i = 1 \<or> s i = -1"
  shows "(entries A = eye n \<longrightarrow>
            C2_init A = Inl (AssertionError ''Generator must not be the identity'')) \<and>
         (entries A \<noteq> eye n \<and> matmul (entries A) (entries A) \<noteq> Inr (eye n) \<longrightarrow>
            C2_init A = Inl (AssertionError ''Generator is not cyclic h @ h != I'')) \<and>
         (entries A \<noteq> eye n \<and> matmul (entries A) (entries A) = Inr (eye n) \<longrightarrow>
            (\<exists>G. C2_init A = Inr G \<and> discrete_generators G = [A]))"
proof -
  have f: "f i < n" if "i < n" for i using bij that by (auto simp: bij_betw_def)
  have sq: "s i * s i = 1" if "i < n" for i using sg[OF that] by auto
  have bij2: "bij_betw (\<lambda>i. f (f i)) {..<n} {..<n}"
    using bij_betw_trans[OF bij bij] by (simp add: comp_def)
  have sg2: "s i * s (f i) = 1 \<or> s i * s (f i) = -1" if "i < n" for i
    using sg[OF that] sg[OF f[OF that]] by auto
  have mm: "matmul (gmat n f s) (gmat n f s) = Inr (gmat n (\<lambda>i. f (f i)) (\<lambda>i. s i * s (f i)))"
    by (rule matmul_gmat) (rule f)
  from C2_init_gmat[OF e n(1) bij sq] obtain G where
    G: "discrete_generators G = [A]"
    and C: "C2_init A =
             (if isclose (trace (gmat n f s)) (int n)
              then Inl (AssertionError ''Generator must not be the identity'')
              else if \<not> isclose (trace (gmat n (\<lambda>i. f (f i)) (\<lambda>i. s i * s (f i)))) (int n)
              then Inl (AssertionError ''Generator is not cyclic h @ h != I'')
              else Inr G)"
    by blast
  note x1 = trace_test_exact[OF bij sg n(2)]
  note x2 = trace_test_exact[OF bij2 sg2 n(2)]
  show ?thesis
    using G by (auto simp: C e mm x1 x2 trace_eye)
qed

text \<open>
  For a valid generalized permutation matrix of dimension below \<open>200000\<close>, in either storage,
  the two trace tests of \<open>C2.__init__\<close> are exact: the constructor raises the identity error exactly for the identity,
  the involution error exactly for a non-identity whose square is not the identity, and
  accepts every other generator.
\<close>

lemma C2_init_exact_below_threshold:
  assumes v: "valid_gpm (entries A)" and n: "0 < length (entries A)" "length (entries A) < 200000"
  shows "(entries A = eye (length (entries A)) \<longrightarrow>
            C2_init A = Inl (AssertionError ''Generator must not be the identity'')) \<and>
         (entries A \<noteq> eye (length (entries A)) \<and>
          matmul (entries A) (entries A) \<noteq> Inr (eye (length (entries A))) \<longrightarrow>
            C2_init A = Inl (AssertionError ''Generator is not cyclic h @ h != I'')) \<and>
         (entries A \<noteq> eye (length (entries A)) \<and>
          matmul (entries A) (entries A) = Inr (eye (length (entries A))) \<longrightarrow>
            (\<exists>G. C2_init A = Inr G \<and> discrete_generators G = [A]))"
  by (rule C2_init_exact_gmat[OF valid_gpm_gmat[OF v] n gpm_perm_bij[OF v] gpm_row(2)[OF v]])


end
